theory Spec2Isabelle
  imports Complex_Main
begin

section \<open>Types and constants (include/types.hpp)\<close>

text \<open>
  Players and cell states are \<open>int8_t\<close> values: \<open>EMPTY = 0\<close>, \<open>BLACK = 1\<close>,
  \<open>WHITE = -1\<close>; the side to move is switched by negation. Only these three values
  occur, so they are modelled as \<open>int\<close>.
\<close>

abbreviation (input) BOARD_SIZE :: int where "BOARD_SIZE \<equiv> 15"
abbreviation (input) BOARD_CELLS :: nat where "BOARD_CELLS \<equiv> 225"
abbreviation (input) EMPTY :: int where "EMPTY \<equiv> 0"
abbreviation (input) BLACK :: int where "BLACK \<equiv> 1"
abbreviation (input) WHITE :: int where "WHITE \<equiv> - 1"
abbreviation (input) LEGAL_RADIUS :: int where "LEGAL_RADIUS \<equiv> 2"

definition DIRECTIONS :: "(int \<times> int) list" where
  "DIRECTIONS = [(1, 0), (0, 1), (1, 1), (1, - 1)]"

definition to_index :: "int \<Rightarrow> int \<Rightarrow> int" where
  "to_index x y = y * BOARD_SIZE + x"

definition to_x :: "nat \<Rightarrow> int" where
  "to_x idx = int idx mod BOARD_SIZE"

definition to_y :: "nat \<Rightarrow> int" where
  "to_y idx = int idx div BOARD_SIZE"

definition in_bounds :: "int \<Rightarrow> int \<Rightarrow> bool" where
  "in_bounds x y = (x \<ge> 0 \<and> x < BOARD_SIZE \<and> y \<ge> 0 \<and> y < BOARD_SIZE)"

text \<open>
  \<open>struct Move\<close>: two coordinates; the default constructor gives the invalid
  sentinel \<open>(-1, -1)\<close>. The fields are \<open>int8_t\<close>; every move built by the code
  modelled here has coordinates from -1 to 14, so the narrowing of the constructor
  never changes a value.
\<close>

record move =
  move_x :: int
  move_y :: int

definition Move :: "int \<Rightarrow> int \<Rightarrow> move" where
  "Move x y = \<lparr>move_x = x, move_y = y\<rparr>"

definition Move_invalid :: move where
  "Move_invalid = Move (- 1) (- 1)"

definition is_valid :: "move \<Rightarrow> bool" where
  "is_valid m = (move_x m \<ge> 0 \<and> move_y m \<ge> 0)"

text \<open>
  \<open>Move::to_index\<close>, used as an array and bitset position. The operations below
  use it only on in-bounds moves (their precondition), where it is in \<open>0..224\<close>.
\<close>

definition move_index :: "move \<Rightarrow> nat" where
  "move_index m = nat (to_index (move_x m) (move_y m))"

datatype GameResult = ONGOING | BLACK_WIN | WHITE_WIN | DRAW

section \<open>The board (board.hpp, board.cpp)\<close>

text \<open>
  \<open>cells_\<close> is a fixed array of 225 cells, modelled as a function of the position
  (positions from 225 on are never read or written by an operation whose precondition
  holds). Each \<open>std::bitset<225>\<close> is the set of its set positions: \<open>set(i)\<close> is
  \<open>insert i\<close>, \<open>reset(i)\<close> removes \<open>i\<close>, \<open>reset()\<close> is \<open>{}\<close>, \<open>none()\<close> is
  emptiness, \<open>count()\<close> is \<open>card\<close>, and \<open>mask[i]\<close> is membership.
\<close>

record board =
  cells :: "nat \<Rightarrow> int"
  occupied_mask :: "nat set"
  black_mask :: "nat set"
  white_mask :: "nat set"
  legal_mask :: "nat set"
  current_player :: int
  is_terminal :: bool
  result :: GameResult
  history :: "move list"

definition reset :: board where
  "reset = \<lparr>cells = (\<lambda>_. EMPTY), occupied_mask = {}, black_mask = {}, white_mask = {},
             legal_mask = {}, current_player = BLACK, is_terminal = False,
             result = ONGOING, history = []\<rparr>"

definition move_count :: "board \<Rightarrow> int" where
  "move_count b = int (length (history b))"

definition get :: "board \<Rightarrow> int \<Rightarrow> int \<Rightarrow> int" where
  "get b x y = cells b (nat (to_index x y))"

definition is_empty_cell :: "board \<Rightarrow> int \<Rightarrow> int \<Rightarrow> bool" where
  "is_empty_cell b x y = (cells b (nat (to_index x y)) = EMPTY)"

definition get_winner :: "board \<Rightarrow> int" where
  "get_winner b = (case result b of BLACK_WIN \<Rightarrow> BLACK | WHITE_WIN \<Rightarrow> WHITE | _ \<Rightarrow> EMPTY)"

subsection \<open>Legal mask\<close>

text \<open>
  The double loop \<open>for dy in -2..2, for dx in -2..2\<close> of \<open>update_legal_mask\<close> and
  \<open>unmake_move\<close>: the offsets in the order of the loops, and the body folded over them.
\<close>

definition radius_offsets :: "(int \<times> int) list" where
  "radius_offsets =
     concat (map (\<lambda>dy. map (\<lambda>dx. (dx, dy)) [- LEGAL_RADIUS .. LEGAL_RADIUS])
                 [- LEGAL_RADIUS .. LEGAL_RADIUS])"

definition add_neighbour :: "nat set \<Rightarrow> int \<Rightarrow> int \<Rightarrow> nat set \<Rightarrow> int \<times> int \<Rightarrow> nat set" where
  "add_neighbour occ mx my legal d =
     (let nx = mx + fst d; ny = my + snd d in
      if in_bounds nx ny \<and> nat (to_index nx ny) \<notin> occ
      then insert (nat (to_index nx ny)) legal else legal)"

definition add_radius :: "nat set \<Rightarrow> nat set \<Rightarrow> move \<Rightarrow> nat set" where
  "add_radius occ legal m = foldl (add_neighbour occ (move_x m) (move_y m)) legal radius_offsets"

definition update_legal_mask :: "board \<Rightarrow> move \<Rightarrow> board" where
  "update_legal_mask b m =
     (let b1 = (if history b = [] \<and> legal_mask b = {}
                then b\<lparr>legal_mask := insert (move_index m) (legal_mask b)\<rparr> else b)
      in b1\<lparr>legal_mask := add_radius (occupied_mask b1) (legal_mask b1) m\<rparr>)"

subsection \<open>Win detection\<close>

text \<open>
  The loop of \<open>Board::count_direction\<close>, with the running count as accumulator. Its
  callers pass the four \<open>DIRECTIONS\<close> and their negations only; with the zero
  direction the source's loop would not advance, and the model stops there instead.
\<close>

function count_direction_loop ::
  "(nat \<Rightarrow> int) \<Rightarrow> int \<Rightarrow> int \<Rightarrow> int \<Rightarrow> int \<Rightarrow> int \<Rightarrow> int \<Rightarrow> int" where
  "count_direction_loop cs nx ny dx dy player count =
     (if (dx \<noteq> 0 \<or> dy \<noteq> 0) \<and> in_bounds nx ny \<and> cs (nat (to_index nx ny)) = player
      then count_direction_loop cs (nx + dx) (ny + dy) dx dy player (count + 1)
      else count)"
  by pat_completeness auto
termination
  by (relation "measure (\<lambda>(cs, nx, ny, dx, dy, player, count).
        nat (if dx > 0 then BOARD_SIZE - nx else if dx < 0 then nx + 1
             else if dy > 0 then BOARD_SIZE - ny else ny + 1))")
     (auto simp: in_bounds_def)

declare count_direction_loop.simps [simp del]

definition count_direction :: "board \<Rightarrow> int \<Rightarrow> int \<Rightarrow> int \<Rightarrow> int \<Rightarrow> int \<Rightarrow> int" where
  "count_direction b x y dx dy player =
     count_direction_loop (cells b) (x + dx) (y + dy) dx dy player 0"

definition check_win :: "board \<Rightarrow> move \<Rightarrow> bool" where
  "check_win b m =
     (let x = move_x m; y = move_y m; player = cells b (move_index m) in
      list_ex (\<lambda>(dx, dy).
          1 + count_direction b x y dx dy player
            + count_direction b x y (- dx) (- dy) player \<ge> 5) DIRECTIONS)"

subsection \<open>Applying and undoing a move\<close>

definition make_move :: "board \<Rightarrow> move \<Rightarrow> board" where
  "make_move b m =
     (let idx = move_index m;
          b1 = b\<lparr>cells := (cells b)(idx := current_player b),
                 occupied_mask := insert idx (occupied_mask b)\<rparr>;
          b2 = (if current_player b1 = BLACK
                then b1\<lparr>black_mask := insert idx (black_mask b1)\<rparr>
                else b1\<lparr>white_mask := insert idx (white_mask b1)\<rparr>);
          b3 = update_legal_mask b2 m;
          b4 = b3\<lparr>legal_mask := legal_mask b3 - {idx}\<rparr>;
          b5 = b4\<lparr>history := history b4 @ [m]\<rparr>;
          b6 = (if check_win b5 m
                then b5\<lparr>is_terminal := True,
                        result := (if current_player b5 = BLACK then BLACK_WIN else WHITE_WIN)\<rparr>
                else if legal_mask b5 = {}
                then b5\<lparr>is_terminal := True, result := DRAW\<rparr>
                else b5)
      in b6\<lparr>current_player := - current_player b6\<rparr>)"

definition rebuild_legal_mask :: "nat set \<Rightarrow> move list \<Rightarrow> nat set" where
  "rebuild_legal_mask occ hist =
     (if hist = [] then {nat (to_index 7 7)}
      else foldl (add_radius occ) {} hist)"

definition unmake_move :: "board \<Rightarrow> move \<Rightarrow> board" where
  "unmake_move b m =
     (if history b = [] then b
      else
        (let idx = move_index m;
             occ = occupied_mask b - {idx};
             hist = butlast (history b)
         in b\<lparr>current_player := - current_player b,
               cells := (cells b)(idx := EMPTY),
               occupied_mask := occ,
               black_mask := black_mask b - {idx},
               white_mask := white_mask b - {idx},
               is_terminal := False,
               result := ONGOING,
               history := hist,
               legal_mask := rebuild_legal_mask occ hist\<rparr>))"

subsection \<open>Legality and enumeration\<close>

definition is_legal :: "board \<Rightarrow> int \<Rightarrow> int \<Rightarrow> bool" where
  "is_legal b x y =
     (if \<not> in_bounds x y then False
      else if history b = [] then is_empty_cell b x y
      else nat (to_index x y) \<in> legal_mask b \<and> nat (to_index x y) \<notin> occupied_mask b)"

definition get_legal_moves :: "board \<Rightarrow> move list" where
  "get_legal_moves b =
     (if history b = [] then [Move 7 7]
      else map (\<lambda>idx. Move (to_x idx) (to_y idx))
               (filter (\<lambda>idx. idx \<in> legal_mask b) [0..<BOARD_CELLS]))"

section \<open>The heuristic (heuristic.hpp, heuristic.cpp)\<close>

abbreviation (input) SCORE_WIN :: int where "SCORE_WIN \<equiv> 1000000"
abbreviation (input) SCORE_FOUR_OPEN :: int where "SCORE_FOUR_OPEN \<equiv> 100000"
abbreviation (input) SCORE_FOUR_CLOSED :: int where "SCORE_FOUR_CLOSED \<equiv> 10000"
abbreviation (input) SCORE_THREE_OPEN :: int where "SCORE_THREE_OPEN \<equiv> 5000"
abbreviation (input) SCORE_THREE_CLOSED :: int where "SCORE_THREE_CLOSED \<equiv> 500"
abbreviation (input) SCORE_TWO_OPEN :: int where "SCORE_TWO_OPEN \<equiv> 200"
abbreviation (input) SCORE_TWO_CLOSED :: int where "SCORE_TWO_CLOSED \<equiv> 20"

text \<open>
  The loop of \<open>Heuristic::count_consecutive\<close>: it reads the board through
  \<open>board.get\<close> and breaks at the first cell that is not the player's. As for
  \<open>count_direction\<close>, every caller passes one of the four directions or its negation.
\<close>

function count_consecutive_loop ::
  "board \<Rightarrow> int \<Rightarrow> int \<Rightarrow> int \<Rightarrow> int \<Rightarrow> int \<Rightarrow> int \<Rightarrow> int" where
  "count_consecutive_loop b nx ny dx dy player count =
     (if (dx \<noteq> 0 \<or> dy \<noteq> 0) \<and> nx \<ge> 0 \<and> nx < BOARD_SIZE \<and> ny \<ge> 0 \<and> ny < BOARD_SIZE
      then (if get b nx ny \<noteq> player then count
            else count_consecutive_loop b (nx + dx) (ny + dy) dx dy player (count + 1))
      else count)"
  by pat_completeness auto
termination
  by (relation "measure (\<lambda>(b, nx, ny, dx, dy, player, count).
        nat (if dx > 0 then BOARD_SIZE - nx else if dx < 0 then nx + 1
             else if dy > 0 then BOARD_SIZE - ny else ny + 1))")
     auto

declare count_consecutive_loop.simps [simp del]

definition count_consecutive :: "board \<Rightarrow> int \<Rightarrow> int \<Rightarrow> int \<Rightarrow> int \<Rightarrow> int \<Rightarrow> int" where
  "count_consecutive b x y dx dy player =
     count_consecutive_loop b (x + dx) (y + dy) dx dy player 0"

text \<open>
  The two gap loops of \<open>evaluate_line\<close>: the player's stones past the empty end
  cell. The second one steps by \<open>-dx, -dy\<close>; it is this loop with the direction negated.
\<close>

function gap_loop ::
  "board \<Rightarrow> int \<Rightarrow> int \<Rightarrow> int \<Rightarrow> int \<Rightarrow> int \<Rightarrow> int \<Rightarrow> int" where
  "gap_loop b gap_x gap_y dx dy player gap_count =
     (if (dx \<noteq> 0 \<or> dy \<noteq> 0) \<and> gap_x \<ge> 0 \<and> gap_x < BOARD_SIZE \<and> gap_y \<ge> 0 \<and> gap_y < BOARD_SIZE
      then (if get b gap_x gap_y = player
            then gap_loop b (gap_x + dx) (gap_y + dy) dx dy player (gap_count + 1)
            else gap_count)
      else gap_count)"
  by pat_completeness auto
termination
  by (relation "measure (\<lambda>(b, nx, ny, dx, dy, player, count).
        nat (if dx > 0 then BOARD_SIZE - nx else if dx < 0 then nx + 1
             else if dy > 0 then BOARD_SIZE - ny else ny + 1))")
     auto

declare gap_loop.simps [simp del]

definition evaluate_line :: "board \<Rightarrow> int \<Rightarrow> int \<Rightarrow> int \<Rightarrow> int \<Rightarrow> int \<Rightarrow> int" where
  "evaluate_line b x y dx dy player =
     (let count_pos = count_consecutive b x y dx dy player;
          count_neg = count_consecutive b x y (- dx) (- dy) player;
          total = count_pos + count_neg
      in if total \<ge> 4 then SCORE_WIN
         else
           (let end_pos_x = x + dx * (count_pos + 1);
                end_pos_y = y + dy * (count_pos + 1);
                open_pos = (end_pos_x \<ge> 0 \<and> end_pos_x < BOARD_SIZE \<and>
                            end_pos_y \<ge> 0 \<and> end_pos_y < BOARD_SIZE \<and>
                            get b end_pos_x end_pos_y = EMPTY);
                end_neg_x = x - dx * (count_neg + 1);
                end_neg_y = y - dy * (count_neg + 1);
                open_neg = (end_neg_x \<ge> 0 \<and> end_neg_x < BOARD_SIZE \<and>
                            end_neg_y \<ge> 0 \<and> end_neg_y < BOARD_SIZE \<and>
                            get b end_neg_x end_neg_y = EMPTY);
                openness = (if open_pos then 1 else 0) + (if open_neg then 1 else (0::int));
                gap_count = (if open_pos \<and> count_pos < 4
                             then gap_loop b (end_pos_x + dx) (end_pos_y + dy) dx dy player 0
                             else 0);
                gap_count_neg = (if open_neg \<and> count_neg < 4
                             then gap_loop b (end_neg_x - dx) (end_neg_y - dy) (- dx) (- dy) player 0
                             else 0)
            in if total = 3 \<and> openness = 2 then SCORE_FOUR_OPEN
               else if total = 3 \<and> openness = 1 then SCORE_FOUR_CLOSED
               else if total = 2 \<and> (gap_count \<ge> 1 \<or> gap_count_neg \<ge> 1) \<and> openness \<ge> 1
                 then SCORE_THREE_OPEN
               else if total = 2 \<and> openness = 2 then SCORE_THREE_OPEN
               else if total = 2 \<and> openness = 1 then SCORE_THREE_CLOSED
               else if total = 1 \<and> (gap_count \<ge> 2 \<or> gap_count_neg \<ge> 2) then SCORE_THREE_CLOSED
               else if total = 1 \<and> (gap_count \<ge> 1 \<or> gap_count_neg \<ge> 1) \<and> openness \<ge> 1
                 then SCORE_TWO_OPEN
               else if total = 1 \<and> openness = 2 then SCORE_TWO_OPEN
               else if total = 1 \<and> openness = 1 then SCORE_TWO_CLOSED
               else 0))"

text \<open>The direction arrays \<open>dx[] = {1, 0, 1, 1}\<close>, \<open>dy[] = {0, 1, 1, -1}\<close>.\<close>

definition heuristic_directions :: "(int \<times> int) list" where
  "heuristic_directions = zip [1, 0, 1, 1] [0, 1, 1, - 1]"

text \<open>
  The inner loop over the four directions in \<open>find_winning_move\<close> and in the first
  pass of \<open>find_blocking_move\<close>: some direction has \<open>count_pos + count_neg >= 4\<close>.
\<close>

definition four_in_line :: "board \<Rightarrow> move \<Rightarrow> int \<Rightarrow> bool" where
  "four_in_line b m player =
     list_ex (\<lambda>(dx, dy).
         count_consecutive b (move_x m) (move_y m) dx dy player
           + count_consecutive b (move_x m) (move_y m) (- dx) (- dy) player \<ge> 4)
       heuristic_directions"

definition find_winning_move :: "board \<Rightarrow> move" where
  "find_winning_move b =
     (let player = current_player b; moves = get_legal_moves b in
      case find (\<lambda>m. four_in_line b m player) moves of
        Some m \<Rightarrow> m
      | None \<Rightarrow> Move (- 1) (- 1))"

definition opponent_of :: "int \<Rightarrow> int" where
  "opponent_of player = (if player = BLACK then WHITE else BLACK)"

text \<open>
  The second pass of \<open>find_blocking_move\<close>: the pair \<open>(best_block, best_threat)\<close>
  threaded through the loop over the moves and the loop over the directions.
\<close>

definition threat_step :: "board \<Rightarrow> int \<Rightarrow> move \<Rightarrow> move \<times> int \<Rightarrow> int \<times> int \<Rightarrow> move \<times> int" where
  "threat_step b opponent m best d =
     (let threat = evaluate_line b (move_x m) (move_y m) (fst d) (snd d) opponent in
      if threat \<ge> SCORE_FOUR_OPEN \<and> threat > snd best then (m, threat) else best)"

definition find_blocking_move :: "board \<Rightarrow> move" where
  "find_blocking_move b =
     (let player = current_player b;
          opponent = opponent_of player;
          moves = get_legal_moves b
      in case find (\<lambda>m. four_in_line b m opponent) moves of
           Some m \<Rightarrow> m
         | None \<Rightarrow>
             fst (foldl (\<lambda>best m. foldl (threat_step b opponent m) best heuristic_directions)
                        (Move (- 1) (- 1), 0) moves))"

section \<open>The search (mcts.hpp, mcts.cpp)\<close>

record mcts_config =
  exploration_constant :: real
  max_iterations :: int
  max_time_ms :: int
  seed :: nat
  use_heuristic_rollouts :: bool
  use_random_rollouts :: bool

text \<open>
  \<open>struct MCTSNode\<close>. The children are owned by the node; the parent pointer is a
  back reference used by backpropagation only and is left out.
\<close>

datatype mcts_node =
  MCTSNode (node_move: move) (children: "mcts_node list") (untried_moves: "move list")
           (visit_count: int) (total_value: real) (player_to_move: int)

text \<open>
  \<open>MCTS::rollout\<close>. The two playout policies draw from the random generator; what
  each returns on its copy of the board is a parameter here.
\<close>

definition rollout ::
  "mcts_config \<Rightarrow> (board \<Rightarrow> real) \<Rightarrow> (board \<Rightarrow> real) \<Rightarrow> board \<Rightarrow> real" where
  "rollout config heuristic_rollout random_rollout b =
     (if is_terminal b
      then (let winner = get_winner b in
            if winner = EMPTY then 0
            else if winner = current_player b then - 1 else 1)
      else
        (let t0 = (0::real); c0 = (0::int);
             (t1, c1) = (if use_heuristic_rollouts config
                         then (t0 + heuristic_rollout b, c0 + 1) else (t0, c0));
             (t2, c2) = (if use_random_rollouts config
                         then (t1 + random_rollout b, c1 + 1) else (t1, c1))
         in if c2 > 0 then t2 / of_int c2 else 0))"

text \<open>
  \<open>MCTS::select_best_move\<close>: with no children the first untried move, or the invalid
  move; otherwise the first child with the greatest visit count.
\<close>

definition most_visited_step :: "mcts_node option \<times> int \<Rightarrow> mcts_node \<Rightarrow> mcts_node option \<times> int" where
  "most_visited_step best child =
     (if visit_count child > snd best then (Some child, visit_count child) else best)"

definition select_best_move :: "mcts_node \<Rightarrow> move" where
  "select_best_move root_node =
     (if children root_node = []
      then (if untried_moves root_node \<noteq> [] then untried_moves root_node ! 0 else Move (- 1) (- 1))
      else (case fst (foldl most_visited_step (None, - 1) (children root_node)) of
              Some best \<Rightarrow> node_move best
            | None \<Rightarrow> Move (- 1) (- 1)))"

text \<open>
  The loop of \<open>MCTS::search\<close>. \<open>elapsed k\<close> is the clock reading (milliseconds since
  \<open>start_time\<close>) taken at the top of the pass that starts with \<open>iterations_ = k\<close>, and
  \<open>iterate k\<close> is what the body of that pass (selection, expansion, rollout and
  backpropagation, with the random generator in its state then) does to the tree: both
  are parameters.
\<close>

function search_loop ::
  "int \<Rightarrow> (int \<Rightarrow> int) \<Rightarrow> (int \<Rightarrow> mcts_node \<Rightarrow> mcts_node) \<Rightarrow> int \<Rightarrow> mcts_node \<Rightarrow> int
     \<Rightarrow> mcts_node \<times> int" where
  "search_loop max_iter elapsed iterate time_limit_ms root_node iterations =
     (if iterations < max_iter
      then (if elapsed iterations \<ge> time_limit_ms then (root_node, iterations)
            else search_loop max_iter elapsed iterate time_limit_ms
                   (iterate iterations root_node) (iterations + 1))
      else (root_node, iterations))"
  by pat_completeness auto
termination
  by (relation "measure (\<lambda>(max_iter, elapsed, iterate, time_limit_ms, root_node, iterations).
        nat (max_iter - iterations))")
     auto

declare search_loop.simps [simp del]

text \<open>
  \<open>MCTS::search(board, time_limit_ms)\<close>. The result is the move returned and the value
  of the member \<open>iterations_\<close> afterwards (\<open>iterations0\<close> is its value before: the
  early returns leave it alone).
\<close>

definition search ::
  "mcts_config \<Rightarrow> (int \<Rightarrow> int) \<Rightarrow> (int \<Rightarrow> mcts_node \<Rightarrow> mcts_node) \<Rightarrow> int \<Rightarrow> board \<Rightarrow> int
     \<Rightarrow> move \<times> int" where
  "search config elapsed iterate iterations0 b time_limit_ms =
     (let winning = find_winning_move b in
      if is_valid winning then (winning, iterations0)
      else
        (let blocking = find_blocking_move b in
         if is_valid blocking then (blocking, iterations0)
         else
           (let root_node = MCTSNode (Move (- 1) (- 1)) [] (get_legal_moves b) 0 0 (current_player b) in
            if length (untried_moves root_node) = 1 then (untried_moves root_node ! 0, iterations0)
            else
              (let (root_node', iterations) =
                     search_loop (max_iterations config) elapsed iterate time_limit_ms root_node 0
               in (select_best_move root_node', iterations)))))"

section \<open>The front end's move parser (uci.cpp)\<close>

text \<open>
  The character classes of \<open><cctype>\<close> in the C locale, on the bytes of the string.
\<close>

definition isalpha :: "char \<Rightarrow> bool" where
  "isalpha c = (let n = (of_char c :: nat) in (65 \<le> n \<and> n \<le> 90) \<or> (97 \<le> n \<and> n \<le> 122))"

definition tolower :: "char \<Rightarrow> char" where
  "tolower c = (let n = (of_char c :: nat) in if 65 \<le> n \<and> n \<le> 90 then char_of (n + 32) else c)"

definition isspace :: "char \<Rightarrow> bool" where
  "isspace c = (let n = (of_char c :: nat) in n = 32 \<or> (9 \<le> n \<and> n \<le> 13))"

definition isdigit :: "char \<Rightarrow> bool" where
  "isdigit c = (let n = (of_char c :: nat) in 48 \<le> n \<and> n \<le> 57)"

definition digits_value :: "string \<Rightarrow> int" where
  "digits_value ds = foldl (\<lambda>acc c. 10 * acc + (int (of_char c) - 48)) 0 ds"

text \<open>
  \<open>std::stoi\<close> in base 10: leading white space is skipped, one sign is accepted, the
  longest run of digits is converted and the rest of the string is ignored. It throws
  \<open>invalid_argument\<close> when there is no digit and \<open>out_of_range\<close> when the value is
  not an \<open>int\<close>; both are \<open>None\<close> here, since \<open>parse_move\<close> catches everything.
\<close>

definition stoi :: "string \<Rightarrow> int option" where
  "stoi str =
     (let s1 = dropWhile isspace str;
          (negative, s2) = (case s1 of
                              [] \<Rightarrow> (False, s1)
                            | c # r \<Rightarrow> if c = CHR ''-'' then (True, r)
                                       else if c = CHR ''+'' then (False, r)
                                       else (False, s1));
          ds = takeWhile isdigit s2
      in if ds = [] then None
         else (let v = (if negative then - digits_value ds else digits_value ds)
               in if v < - 2147483648 \<or> v > 2147483647 then None else Some v))"

text \<open>The end of \<open>parse_move\<close>: the bounds check on the coordinates read.\<close>

definition move_if_in_bounds :: "int \<Rightarrow> int \<Rightarrow> move" where
  "move_if_in_bounds x y = (if in_bounds x y then Move x y else Move (- 1) (- 1))"

text \<open>
  \<open>UCIEngine::parse_move\<close>. In the letter branch the row is \<open>stoi(...) - 1\<close>; at
  \<open>INT_MIN\<close> that subtraction overflows, and the coordinate is out of bounds whether
  it wraps or not.
\<close>

definition parse_move :: "string \<Rightarrow> move" where
  "parse_move move_str =
     (if length move_str < 2 then Move (- 1) (- 1)
      else if isalpha (move_str ! 0)
      then (let col = tolower (move_str ! 0);
                x = int (of_char col) - 97
            in case stoi (drop 1 move_str) of
                 None \<Rightarrow> Move (- 1) (- 1)
               | Some v \<Rightarrow> move_if_in_bounds x (v - 1))
      else if CHR '','' \<in> set move_str
      then (let comma = length (takeWhile (\<lambda>c. c \<noteq> CHR '','') move_str)
            in case stoi (take comma move_str) of
                 None \<Rightarrow> Move (- 1) (- 1)
               | Some x \<Rightarrow>
                   (case stoi (drop (comma + 1) move_str) of
                      None \<Rightarrow> Move (- 1) (- 1)
                    | Some y \<Rightarrow> move_if_in_bounds x y))
      else move_if_in_bounds (- 1) (- 1))"

section \<open>Reachable boards and their invariant\<close>

text \<open>
  The boards that the public operations produce: a reset board, \<open>make_move\<close> on an
  in-bounds empty cell, and \<open>unmake_move\<close> of the last move of the history.
\<close>

inductive reachable :: "board \<Rightarrow> bool" where
  reach_reset: "reachable reset"
| reach_make_move:
    "reachable b \<Longrightarrow> in_bounds (move_x m) (move_y m) \<Longrightarrow> cells b (move_index m) = EMPTY
     \<Longrightarrow> reachable (make_move b m)"
| reach_unmake_move:
    "reachable b \<Longrightarrow> history b \<noteq> [] \<Longrightarrow> last (history b) = m
     \<Longrightarrow> reachable (unmake_move b m)"

text \<open>The invariant that the three operations keep, stronger than the listed properties.\<close>

definition board_inv :: "board \<Rightarrow> bool" where
  "board_inv b \<longleftrightarrow>
     (\<forall>i. cells b i = EMPTY \<or> cells b i = BLACK \<or> cells b i = WHITE) \<and>
     occupied_mask b = {i. cells b i \<noteq> EMPTY} \<and>
     black_mask b = {i. cells b i = BLACK} \<and>
     white_mask b = {i. cells b i = WHITE} \<and>
     occupied_mask b = move_index ` set (history b) \<and>
     distinct (map move_index (history b)) \<and>
     (\<forall>m \<in> set (history b). in_bounds (move_x m) (move_y m)) \<and>
     legal_mask b \<inter> occupied_mask b = {} \<and>
     current_player b = (if even (length (history b)) then BLACK else WHITE)"

text \<open>Playing a list of moves from the fresh board, and undoing a list of moves in turn.\<close>

definition play :: "move list \<Rightarrow> board" where
  "play ms = foldl make_move reset ms"

definition undo_all :: "board \<Rightarrow> move list \<Rightarrow> board" where
  "undo_all b ms = foldl unmake_move b ms"

text \<open>
  A list of moves each of which \<open>is_legal\<close> accepts on the board reached so far.
\<close>

fun legal_sequence :: "board \<Rightarrow> move list \<Rightarrow> bool" where
  "legal_sequence b [] = True"
| "legal_sequence b (m # ms) =
     (is_legal b (move_x m) (move_y m) \<and> legal_sequence (make_move b m) ms)"

text \<open>
  The horizontal game \<open>D8 D9 E8 E9 F8 F9 G8 G9\<close>, one move before black completes
  five in a row at \<open>H8 = (7, 7)\<close>.
\<close>

definition won_game :: "move list" where
  "won_game = [Move 3 7, Move 3 8, Move 4 7, Move 4 8, Move 5 7, Move 5 8, Move 6 7, Move 6 8]"

section \<open>Notions used in the statements and proofs\<close>

text \<open>
  A move wins at once for the side to move when \<open>make_move\<close> leaves the board
  terminal with that side as the winner.
\<close>

definition wins_immediately :: "board \<Rightarrow> move \<Rightarrow> bool" where
  "wins_immediately b m \<longleftrightarrow>
     is_terminal (make_move b m) \<and> get_winner (make_move b m) = current_player b"


text \<open>The same position with the opponent to move.\<close>

definition as_opponent :: "board \<Rightarrow> board" where
  "as_opponent b = b\<lparr>current_player := opponent_of (current_player b)\<rparr>"

text \<open>
  The board of \<open>make_move\<close> at the point where \<open>check_win\<close> is called: stone
  placed, masks and history updated, side to move not yet switched.
\<close>

definition placed :: "board \<Rightarrow> move \<Rightarrow> board" where
  "placed b m =
     b\<lparr>cells := (cells b)(move_index m := current_player b),
       occupied_mask := insert (move_index m) (occupied_mask b),
       black_mask := (if current_player b = BLACK then insert (move_index m) (black_mask b)
                      else black_mask b),
       white_mask := (if current_player b = BLACK then white_mask b
                      else insert (move_index m) (white_mask b)),
       legal_mask := add_radius (insert (move_index m) (occupied_mask b))
                       (if history b = [] \<and> legal_mask b = {}
                        then insert (move_index m) (legal_mask b) else legal_mask b) m
                     - {move_index m},
       history := history b @ [m]\<rparr>"

text \<open>The positions that hold a stone of a player.\<close>

definition stones :: "board \<Rightarrow> int \<Rightarrow> nat set" where
  "stones b p = {i. i < BOARD_CELLS \<and> cells b i = p}"






text \<open>The default \<open>MCTSConfig\<close>.\<close>

definition default_config :: mcts_config where
  "default_config = \<lparr>exploration_constant = 12 / 10, max_iterations = 10000, max_time_ms = 1000,
      seed = 0, use_heuristic_rollouts = True, use_random_rollouts = True\<rparr>"


section \<open>Facts about the board operations\<close>

lemma history_make_move: "history (make_move b m) = history b @ [m]"
  by (simp add: make_move_def Let_def update_legal_mask_def)

lemma cells_make_move: "cells (make_move b m) = (cells b)(move_index m := current_player b)"
  by (simp add: make_move_def Let_def update_legal_mask_def)

lemma occupied_make_move: "occupied_mask (make_move b m) = insert (move_index m) (occupied_mask b)"
  by (simp add: make_move_def Let_def update_legal_mask_def)

lemma black_make_move: "black_mask (make_move b m) =
   (if current_player b = BLACK then insert (move_index m) (black_mask b) else black_mask b)"
  by (simp add: make_move_def Let_def update_legal_mask_def)

lemma white_make_move: "white_mask (make_move b m) =
   (if current_player b = BLACK then white_mask b else insert (move_index m) (white_mask b))"
  by (simp add: make_move_def Let_def update_legal_mask_def)

lemma player_make_move: "current_player (make_move b m) = - current_player b"
  by (simp add: make_move_def Let_def update_legal_mask_def)

lemma legal_make_move: "legal_mask (make_move b m) =
   add_radius (insert (move_index m) (occupied_mask b))
     (if history b = [] \<and> legal_mask b = {}
      then insert (move_index m) (legal_mask b) else legal_mask b) m
   - {move_index m}"
  by (auto simp: make_move_def Let_def update_legal_mask_def)

lemma foldl_add_neighbour:
  "foldl (add_neighbour occ x y) L ds =
     L \<union> {nat (to_index (x + dx) (y + dy)) | dx dy.
            (dx, dy) \<in> set ds \<and> in_bounds (x + dx) (y + dy)
            \<and> nat (to_index (x + dx) (y + dy)) \<notin> occ}"
proof (induction ds arbitrary: L)
  case Nil
  then show ?case by simp
next
  case (Cons d ds)
  obtain a c where d: "d = (a, c)" by (cases d)
  have step: "add_neighbour occ x y L d =
      (if in_bounds (x + a) (y + c) \<and> nat (to_index (x + a) (y + c)) \<notin> occ
       then insert (nat (to_index (x + a) (y + c))) L else L)"
    by (simp add: add_neighbour_def d Let_def)
  have "foldl (add_neighbour occ x y) L (d # ds) =
        foldl (add_neighbour occ x y) (add_neighbour occ x y L d) ds" by simp
  also have "\<dots> = add_neighbour occ x y L d \<union>
      {nat (to_index (x + dx) (y + dy)) | dx dy.
            (dx, dy) \<in> set ds \<and> in_bounds (x + dx) (y + dy)
            \<and> nat (to_index (x + dx) (y + dy)) \<notin> occ}"
    by (rule Cons.IH)
  also have "\<dots> = L \<union> {nat (to_index (x + dx) (y + dy)) | dx dy.
            (dx, dy) \<in> set (d # ds) \<and> in_bounds (x + dx) (y + dy)
            \<and> nat (to_index (x + dx) (y + dy)) \<notin> occ}"
    by (simp only: step) (auto simp: d)
  finally show ?case .
qed

lemma set_radius_offsets: "set radius_offsets = {- 2 .. 2} \<times> {- 2 .. 2}"
proof -
  have "set radius_offsets = (\<Union>dy\<in>{- 2 .. 2}. (\<lambda>dx. (dx, dy)) ` {- 2 .. 2})"
    by (simp only: radius_offsets_def set_concat set_map set_upto image_image)
  also have "\<dots> = {- 2 .. 2} \<times> {- 2 .. 2}"
    by blast
  finally show ?thesis .
qed

lemma add_radius_eq:
  "add_radius occ L m =
     L \<union> {nat (to_index nx ny) | nx ny.
            in_bounds nx ny \<and> \<bar>nx - move_x m\<bar> \<le> 2 \<and> \<bar>ny - move_y m\<bar> \<le> 2
            \<and> nat (to_index nx ny) \<notin> occ}"
proof -
  have "{nat (to_index (move_x m + dx) (move_y m + dy)) | dx dy.
            (dx, dy) \<in> set radius_offsets \<and> in_bounds (move_x m + dx) (move_y m + dy)
            \<and> nat (to_index (move_x m + dx) (move_y m + dy)) \<notin> occ}
      = {nat (to_index nx ny) | nx ny.
            in_bounds nx ny \<and> \<bar>nx - move_x m\<bar> \<le> 2 \<and> \<bar>ny - move_y m\<bar> \<le> 2
            \<and> nat (to_index nx ny) \<notin> occ}" (is "?A = ?B")
  proof
    show "?A \<subseteq> ?B"
    proof
      fix i assume "i \<in> ?A"
      then obtain dx dy where i: "i = nat (to_index (move_x m + dx) (move_y m + dy))"
        "(dx, dy) \<in> set radius_offsets" "in_bounds (move_x m + dx) (move_y m + dy)"
        "nat (to_index (move_x m + dx) (move_y m + dy)) \<notin> occ"
        by blast
      have "\<bar>move_x m + dx - move_x m\<bar> \<le> 2" "\<bar>move_y m + dy - move_y m\<bar> \<le> 2"
        using i(2) by (auto simp: set_radius_offsets)
      with i(1,3,4) show "i \<in> ?B" by blast
    qed
    show "?B \<subseteq> ?A"
    proof
      fix i assume "i \<in> ?B"
      then obtain nx ny where i: "i = nat (to_index nx ny)" "in_bounds nx ny"
        "\<bar>nx - move_x m\<bar> \<le> 2" "\<bar>ny - move_y m\<bar> \<le> 2" "nat (to_index nx ny) \<notin> occ"
        by blast
      have "(nx - move_x m, ny - move_y m) \<in> set radius_offsets"
        using i(3,4) by (auto simp: set_radius_offsets)
      moreover have "i = nat (to_index (move_x m + (nx - move_x m)) (move_y m + (ny - move_y m)))"
        using i(1) by simp
      moreover have "in_bounds (move_x m + (nx - move_x m)) (move_y m + (ny - move_y m))"
        using i(2) by simp
      moreover have "nat (to_index (move_x m + (nx - move_x m)) (move_y m + (ny - move_y m))) \<notin> occ"
        using i(5) by simp
      ultimately show "i \<in> ?A" by blast
    qed
  qed
  then show ?thesis by (simp add: add_radius_def foldl_add_neighbour)
qed


lemma board_inv_reset: "board_inv reset"
  by (simp add: board_inv_def reset_def)

lemma board_invD:
  assumes "board_inv b"
  shows inv_cells: "cells b i = EMPTY \<or> cells b i = BLACK \<or> cells b i = WHITE"
    and inv_occupied: "occupied_mask b = {i. cells b i \<noteq> EMPTY}"
    and inv_black: "black_mask b = {i. cells b i = BLACK}"
    and inv_white: "white_mask b = {i. cells b i = WHITE}"
    and inv_history: "occupied_mask b = move_index ` set (history b)"
    and inv_distinct: "distinct (map move_index (history b))"
    and inv_in_bounds: "m \<in> set (history b) \<Longrightarrow> in_bounds (move_x m) (move_y m)"
    and inv_legal: "legal_mask b \<inter> occupied_mask b = {}"
    and inv_player: "current_player b = (if even (length (history b)) then BLACK else WHITE)"
  using assms unfolding board_inv_def by blast+

lemma add_radius_avoids: "add_radius occ L m \<inter> occ = L \<inter> occ"
  unfolding add_radius_eq by blast

lemma foldl_add_radius_avoids: "foldl (add_radius occ) L hs \<inter> occ = L \<inter> occ"
  by (induction hs arbitrary: L) (simp_all add: add_radius_avoids)

lemma rebuild_legal_mask_avoids:
  "(hist = [] \<longrightarrow> occ = {}) \<Longrightarrow> rebuild_legal_mask occ hist \<inter> occ = {}"
  by (simp add: rebuild_legal_mask_def foldl_add_radius_avoids)

lemma board_inv_make_move:
  assumes inv: "board_inv b"
    and empty: "cells b (move_index m) = EMPTY"
    and inb: "in_bounds (move_x m) (move_y m)"
  shows "board_inv (make_move b m)"
proof -
  let ?i = "move_index m"
  let ?p = "current_player b"
  have p: "?p = BLACK \<or> ?p = WHITE" using inv_player [OF inv] by auto
  have notocc: "?i \<notin> occupied_mask b" using empty by (simp add: inv_occupied [OF inv])
  have "\<forall>i. cells (make_move b m) i = EMPTY \<or> cells (make_move b m) i = BLACK
            \<or> cells (make_move b m) i = WHITE"
    using inv_cells [OF inv] p by (auto simp: cells_make_move)
  moreover have "occupied_mask (make_move b m) = {i. cells (make_move b m) i \<noteq> EMPTY}"
    using p by (auto simp: inv_occupied [OF inv] cells_make_move occupied_make_move)
  moreover have "black_mask (make_move b m) = {i. cells (make_move b m) i = BLACK}"
    using p empty by (auto simp: inv_black [OF inv] cells_make_move black_make_move)
  moreover have "white_mask (make_move b m) = {i. cells (make_move b m) i = WHITE}"
    using p empty by (auto simp: inv_white [OF inv] cells_make_move white_make_move)
  moreover have "occupied_mask (make_move b m) = move_index ` set (history (make_move b m))"
    by (simp add: inv_history [OF inv] history_make_move occupied_make_move)
  moreover have "distinct (map move_index (history (make_move b m)))"
    using inv_distinct [OF inv] notocc by (simp add: inv_history [OF inv] history_make_move)
  moreover have "\<forall>m' \<in> set (history (make_move b m)). in_bounds (move_x m') (move_y m')"
    using inv_in_bounds [OF inv] inb by (auto simp: history_make_move)
  moreover have "legal_mask (make_move b m) \<inter> occupied_mask (make_move b m) = {}"
    using inv_legal [OF inv]
    unfolding legal_make_move occupied_make_move add_radius_eq by auto
  moreover have "current_player (make_move b m) =
      (if even (length (history (make_move b m))) then BLACK else WHITE)"
    by (simp add: inv_player [OF inv] history_make_move player_make_move)
  ultimately show ?thesis unfolding board_inv_def by blast
qed

lemma unmake_move_nonempty:
  "history b \<noteq> [] \<Longrightarrow> unmake_move b m =
      b\<lparr>current_player := - current_player b,
        cells := (cells b)(move_index m := EMPTY),
        occupied_mask := occupied_mask b - {move_index m},
        black_mask := black_mask b - {move_index m},
        white_mask := white_mask b - {move_index m},
        is_terminal := False, result := ONGOING, history := butlast (history b),
        legal_mask := rebuild_legal_mask (occupied_mask b - {move_index m}) (butlast (history b))\<rparr>"
  by (simp add: unmake_move_def Let_def)

lemma board_inv_unmake_move:
  assumes inv: "board_inv b"
    and ne: "history b \<noteq> []"
    and last: "last (history b) = m"
  shows "board_inv (unmake_move b m)"
proof -
  let ?i = "move_index m"
  let ?h = "butlast (history b)"
  note um = unmake_move_nonempty [OF ne, of m]
  have h: "history b = ?h @ [m]" using ne last by (metis append_butlast_last_id)
  have dist: "distinct (map move_index (?h @ [m]))" using inv_distinct [OF inv] h by simp
  have img: "move_index ` set ?h = occupied_mask b - {?i}"
  proof -
    have "occupied_mask b = move_index ` set (?h @ [m])" using inv_history [OF inv] h by simp
    moreover have "?i \<notin> move_index ` set ?h" using dist by auto
    ultimately show ?thesis by auto
  qed
  have "legal_mask (unmake_move b m) \<inter> occupied_mask (unmake_move b m) = {}"
  proof -
    have "?h = [] \<longrightarrow> occupied_mask b - {?i} = {}" using img by auto
    then show ?thesis unfolding um by (simp add: rebuild_legal_mask_avoids)
  qed
  moreover have "current_player (unmake_move b m) =
      (if even (length (history (unmake_move b m))) then BLACK else WHITE)"
  proof -
    obtain hs where hs: "history b = hs @ [m]" using h by blast
    show ?thesis unfolding um by (simp add: inv_player [OF inv] hs)
  qed
  moreover have "distinct (map move_index (history (unmake_move b m)))"
    using dist unfolding um by simp
  moreover have "\<forall>m' \<in> set (history (unmake_move b m)). in_bounds (move_x m') (move_y m')"
    using inv_in_bounds [OF inv] unfolding um by (auto dest: in_set_butlastD)
  moreover have "occupied_mask (unmake_move b m) = move_index ` set (history (unmake_move b m))"
    using img unfolding um by simp
  moreover have "occupied_mask (unmake_move b m) = {i. cells (unmake_move b m) i \<noteq> EMPTY}"
    unfolding um by (auto simp: inv_occupied [OF inv])
  moreover have "black_mask (unmake_move b m) = {i. cells (unmake_move b m) i = BLACK}"
    unfolding um by (auto simp: inv_black [OF inv])
  moreover have "white_mask (unmake_move b m) = {i. cells (unmake_move b m) i = WHITE}"
    unfolding um by (auto simp: inv_white [OF inv])
  moreover have "\<forall>i. cells (unmake_move b m) i = EMPTY \<or> cells (unmake_move b m) i = BLACK
            \<or> cells (unmake_move b m) i = WHITE"
    using inv_cells [OF inv] unfolding um by auto
  ultimately show ?thesis unfolding board_inv_def by blast
qed

lemma reachable_board_inv: "reachable b \<Longrightarrow> board_inv b"
  by (induction rule: reachable.induct)
     (simp_all add: board_inv_reset board_inv_make_move board_inv_unmake_move)

lemma board_inv_card:
  assumes "board_inv b"
  shows "card (occupied_mask b) = length (history b)"
proof -
  have "card (occupied_mask b) = card (set (map move_index (history b)))"
    by (simp add: inv_history [OF assms])
  also have "\<dots> = length (map move_index (history b))"
    by (rule distinct_card [OF inv_distinct [OF assms]])
  finally show ?thesis by simp
qed

section \<open>Coordinates and the enumeration of legal moves\<close>

lemma to_index_bound: "in_bounds x y \<Longrightarrow> nat (to_index x y) < BOARD_CELLS"
  by (auto simp: in_bounds_def to_index_def)

lemma to_x_to_index: "in_bounds x y \<Longrightarrow> to_x (nat (to_index x y)) = x"
  by (auto simp: in_bounds_def to_index_def to_x_def)

lemma to_y_to_index: "in_bounds x y \<Longrightarrow> to_y (nat (to_index x y)) = y"
  by (auto simp: in_bounds_def to_index_def to_y_def)

lemma in_bounds_to_xy: "i < BOARD_CELLS \<Longrightarrow> in_bounds (to_x i) (to_y i)"
  by (auto simp: in_bounds_def to_x_def to_y_def)

lemma to_index_to_xy: "nat (to_index (to_x i) (to_y i)) = i"
  by (simp add: to_index_def to_x_def to_y_def)

lemma to_index_inj:
  "in_bounds x y \<Longrightarrow> in_bounds x' y' \<Longrightarrow> nat (to_index x y) = nat (to_index x' y')
   \<Longrightarrow> x = x' \<and> y = y'"
proof -
  assume a: "in_bounds x y" "in_bounds x' y'" "nat (to_index x y) = nat (to_index x' y')"
  have "to_index x y \<ge> 0" "to_index x' y' \<ge> 0"
    using a(1,2) by (simp_all add: in_bounds_def to_index_def)
  with a(3) have "to_index x y = to_index x' y'" by linarith
  then have "y * 15 + x = y' * 15 + x'" by (simp add: to_index_def)
  moreover have "0 \<le> x" "x < 15" "0 \<le> x'" "x' < 15"
    using a(1,2) by (simp_all add: in_bounds_def)
  ultimately show ?thesis by presburger
qed

lemma move_index_Move: "move_index (Move x y) = nat (to_index x y)"
  by (simp add: move_index_def Move_def)

lemma Move_eq_iff: "Move x y = Move x' y' \<longleftrightarrow> x = x' \<and> y = y'"
  by (simp add: Move_def)

lemma Move_sel: "move_x (Move x y) = x" "move_y (Move x y) = y"
  by (simp_all add: Move_def)

lemma index_move_inj: "inj_on (\<lambda>idx. Move (to_x idx) (to_y idx)) A"
proof (rule inj_onI)
  fix i j assume "Move (to_x i) (to_y i) = Move (to_x j) (to_y j)"
  then have "to_x i = to_x j" "to_y i = to_y j" by (simp_all add: Move_eq_iff)
  then have "nat (to_index (to_x i) (to_y i)) = nat (to_index (to_x j) (to_y j))" by simp
  then show "i = j" by (simp only: to_index_to_xy)
qed

lemma set_get_legal_moves:
  "history b \<noteq> [] \<Longrightarrow>
     set (get_legal_moves b) = {Move (to_x i) (to_y i) | i. i \<in> legal_mask b \<and> i < BOARD_CELLS}"
  by (auto simp: get_legal_moves_def)

lemma distinct_get_legal_moves: "distinct (get_legal_moves b)"
  by (simp add: get_legal_moves_def distinct_map index_move_inj)


lemma Move_in_get_legal_moves:
  assumes "history b \<noteq> []" "in_bounds x y"
  shows "Move x y \<in> set (get_legal_moves b) \<longleftrightarrow> nat (to_index x y) \<in> legal_mask b"
proof
  assume "Move x y \<in> set (get_legal_moves b)"
  then obtain i where i: "Move x y = Move (to_x i) (to_y i)" "i \<in> legal_mask b"
    unfolding set_get_legal_moves [OF assms(1)] by blast
  then have "nat (to_index x y) = i" by (simp add: Move_eq_iff to_index_to_xy)
  with i(2) show "nat (to_index x y) \<in> legal_mask b" by simp
next
  assume "nat (to_index x y) \<in> legal_mask b"
  moreover have "Move x y = Move (to_x (nat (to_index x y))) (to_y (nat (to_index x y)))"
    by (simp add: to_x_to_index [OF assms(2)] to_y_to_index [OF assms(2)])
  ultimately show "Move x y \<in> set (get_legal_moves b)"
    unfolding set_get_legal_moves [OF assms(1)] using to_index_bound [OF assms(2)] by blast
qed


lemma get_legal_moves_in_bounds:
  assumes "m \<in> set (get_legal_moves b)"
  shows "in_bounds (move_x m) (move_y m)"
proof (cases "history b = []")
  case True
  with assms show ?thesis by (simp add: get_legal_moves_def Move_sel in_bounds_def)
next
  case False
  from assms obtain i where "m = Move (to_x i) (to_y i)" "i < BOARD_CELLS"
    unfolding set_get_legal_moves [OF False] by blast
  then show ?thesis by (simp add: Move_sel in_bounds_to_xy)
qed


lemma legal_after_move:
  assumes "in_bounds nx ny" "\<bar>nx - move_x m\<bar> \<le> 2" "\<bar>ny - move_y m\<bar> \<le> 2"
    and "nat (to_index nx ny) \<notin> insert (move_index m) (occupied_mask b)"
  shows "Move nx ny \<in> set (get_legal_moves (make_move b m))"
proof -
  have "nat (to_index nx ny) \<in> legal_mask (make_move b m)"
    using assms unfolding legal_make_move add_radius_eq by blast
  moreover have "history (make_move b m) \<noteq> []" by (simp add: history_make_move)
  ultimately show ?thesis using Move_in_get_legal_moves assms(1) by blast
qed

lemma is_legal_after_move:
  assumes "in_bounds nx ny" "\<bar>nx - move_x m\<bar> \<le> 2" "\<bar>ny - move_y m\<bar> \<le> 2"
    and "nat (to_index nx ny) \<notin> insert (move_index m) (occupied_mask b)"
  shows "is_legal (make_move b m) nx ny"
proof -
  have "nat (to_index nx ny) \<in> legal_mask (make_move b m)"
    using assms unfolding legal_make_move add_radius_eq by blast
  then show ?thesis
    using assms(1,4) by (simp add: is_legal_def history_make_move occupied_make_move)
qed

section \<open>Undoing moves\<close>

lemma is_legal_empty_cell:
  assumes "board_inv b" "is_legal b (move_x m) (move_y m)"
  shows "in_bounds (move_x m) (move_y m)" and "cells b (move_index m) = EMPTY"
proof -
  show "in_bounds (move_x m) (move_y m)"
    using assms(2) by (simp add: is_legal_def split: if_splits)
  show "cells b (move_index m) = EMPTY"
    using assms(2)
    by (auto simp: is_legal_def is_empty_cell_def move_index_def inv_occupied [OF assms(1)]
        split: if_splits)
qed

lemma unmake_make_move:
  assumes inv: "board_inv b"
    and empty: "cells b (move_index m) = EMPTY"
  shows "unmake_move (make_move b m) m =
     b\<lparr>is_terminal := False, result := ONGOING,
       legal_mask := rebuild_legal_mask (occupied_mask b) (history b)\<rparr>"
proof -
  let ?i = "move_index m"
  have ne: "history (make_move b m) \<noteq> []" by (simp add: history_make_move)
  have occ: "?i \<notin> occupied_mask b" using empty by (simp add: inv_occupied [OF inv])
  have blk: "?i \<notin> black_mask b" using empty by (simp add: inv_black [OF inv])
  have wht: "?i \<notin> white_mask b" using empty by (simp add: inv_white [OF inv])
  have cs: "(cells b)(?i := current_player b, ?i := EMPTY) = cells b"
    using empty by (simp add: fun_eq_iff)
  show ?thesis
    unfolding unmake_move_nonempty [OF ne]
    using occ blk wht cs
    by (intro board.equality)
       (simp_all add: history_make_move cells_make_move occupied_make_move black_make_move
          white_make_move player_make_move)
qed

lemma unmake_move_cong:
  assumes "history b \<noteq> []"
  shows "unmake_move (b\<lparr>is_terminal := t, result := r, legal_mask := L\<rparr>) m = unmake_move b m"
  using assms by (simp add: unmake_move_nonempty)

lemma undo_all_play_general:
  assumes "board_inv b" "legal_sequence b ms" "ms \<noteq> []"
  shows "undo_all (foldl make_move b ms) (rev ms) =
     b\<lparr>is_terminal := False, result := ONGOING,
       legal_mask := rebuild_legal_mask (occupied_mask b) (history b)\<rparr>"
  using assms
proof (induction ms arbitrary: b)
  case Nil
  then show ?case by simp
next
  case (Cons m ms)
  have legal: "is_legal b (move_x m) (move_y m)" and rest: "legal_sequence (make_move b m) ms"
    using Cons.prems(2) by simp_all
  note e = is_legal_empty_cell [OF Cons.prems(1) legal]
  have inv': "board_inv (make_move b m)"
    by (rule board_inv_make_move [OF Cons.prems(1) e(2) e(1)])
  have ne: "history (make_move b m) \<noteq> []" by (simp add: history_make_move)
  show ?case
  proof (cases "ms = []")
    case True
    then show ?thesis
      by (simp add: undo_all_def unmake_make_move [OF Cons.prems(1) e(2)])
  next
    case False
    have "undo_all (foldl make_move b (m # ms)) (rev (m # ms)) =
          unmake_move (undo_all (foldl make_move (make_move b m) ms) (rev ms)) m"
      by (simp add: undo_all_def)
    also have "\<dots> = unmake_move (make_move b m) m"
      unfolding Cons.IH [OF inv' rest False] by (rule unmake_move_cong [OF ne])
    also have "\<dots> = b\<lparr>is_terminal := False, result := ONGOING,
       legal_mask := rebuild_legal_mask (occupied_mask b) (history b)\<rparr>"
      by (rule unmake_make_move [OF Cons.prems(1) e(2)])
    finally show ?thesis .
  qed
qed



section \<open>Win detection and the heuristic's line count\<close>

lemma placed_fields:
  "cells (placed b m) = (cells b)(move_index m := current_player b)"
  "current_player (placed b m) = current_player b"
  "is_terminal (placed b m) = is_terminal b"
  "result (placed b m) = result b"
  "history (placed b m) = history b @ [m]"
  by (simp_all add: placed_def)

lemma make_move_placed:
  "make_move b m =
     (if check_win (placed b m) m
      then (placed b m)\<lparr>is_terminal := True,
              result := (if current_player b = BLACK then BLACK_WIN else WHITE_WIN),
              current_player := - current_player b\<rparr>
      else if legal_mask (placed b m) = {}
      then (placed b m)\<lparr>is_terminal := True, result := DRAW,
              current_player := - current_player b\<rparr>
      else (placed b m)\<lparr>current_player := - current_player b\<rparr>)"
proof -
  define b1 where "b1 = b\<lparr>cells := (cells b)(move_index m := current_player b),
                 occupied_mask := insert (move_index m) (occupied_mask b)\<rparr>"
  define b2 where "b2 = (if current_player b1 = BLACK
                then b1\<lparr>black_mask := insert (move_index m) (black_mask b1)\<rparr>
                else b1\<lparr>white_mask := insert (move_index m) (white_mask b1)\<rparr>)"
  define b3 where "b3 = update_legal_mask b2 m"
  define b4 where "b4 = b3\<lparr>legal_mask := legal_mask b3 - {move_index m}\<rparr>"
  define b5 where "b5 = b4\<lparr>history := history b4 @ [m]\<rparr>"
  have mm: "make_move b m =
     (let b6 = (if check_win b5 m
                then b5\<lparr>is_terminal := True,
                        result := (if current_player b5 = BLACK then BLACK_WIN else WHITE_WIN)\<rparr>
                else if legal_mask b5 = {}
                then b5\<lparr>is_terminal := True, result := DRAW\<rparr>
                else b5)
      in b6\<lparr>current_player := - current_player b6\<rparr>)"
    by (simp only: make_move_def Let_def b5_def b4_def b3_def b2_def b1_def)
  have p: "b5 = placed b m"
  proof (cases "current_player b = BLACK")
    case True
    then show ?thesis
      by (cases "history b = []"; cases "legal_mask b = {}")
         (simp_all add: b5_def b4_def b3_def b2_def b1_def placed_def update_legal_mask_def Let_def)
  next
    case False
    then show ?thesis
      by (cases "history b = []"; cases "legal_mask b = {}")
         (simp_all add: b5_def b4_def b3_def b2_def b1_def placed_def update_legal_mask_def Let_def)
  qed
  show ?thesis
    unfolding mm p by (simp add: Let_def placed_fields)
qed

lemma loops_agree:
  "count_direction_loop (cells b) nx ny dx dy p c = count_consecutive_loop b nx ny dx dy p c"
proof (induction b nx ny dx dy p c rule: count_consecutive_loop.induct)
  case (1 b nx ny dx dy player count)
  show ?case
  proof (cases "(dx \<noteq> 0 \<or> dy \<noteq> 0) \<and> nx \<ge> 0 \<and> nx < BOARD_SIZE \<and> ny \<ge> 0 \<and> ny < BOARD_SIZE")
    case False
    then show ?thesis
      by (subst count_direction_loop.simps, subst count_consecutive_loop.simps)
         (auto simp: in_bounds_def)
  next
    case True
    show ?thesis
    proof (cases "get b nx ny \<noteq> player")
      case ne: True
      with True show ?thesis
        by (subst count_direction_loop.simps, subst count_consecutive_loop.simps)
           (auto simp: in_bounds_def get_def)
    next
      case eq: False
      have ih: "count_direction_loop (cells b) (nx + dx) (ny + dy) dx dy player (count + 1)
              = count_consecutive_loop b (nx + dx) (ny + dy) dx dy player (count + 1)"
        using "1.IH" True eq by blast
      have "count_direction_loop (cells b) nx ny dx dy player count
            = count_direction_loop (cells b) (nx + dx) (ny + dy) dx dy player (count + 1)"
        using True eq by (subst count_direction_loop.simps) (auto simp: in_bounds_def get_def)
      moreover have "count_consecutive_loop b nx ny dx dy player count
            = count_consecutive_loop b (nx + dx) (ny + dy) dx dy player (count + 1)"
        using True eq by (subst count_consecutive_loop.simps) auto
      ultimately show ?thesis using ih by simp
    qed
  qed
qed

lemma check_win_four_in_line:
  "check_win b m = four_in_line b m (cells b (move_index m))"
  by (simp add: check_win_def four_in_line_def DIRECTIONS_def heuristic_directions_def
        count_direction_def count_consecutive_def loops_agree Let_def)

lemma count_consecutive_loop_update:
  "cells b' = (cells b)(nat (to_index x y) := v) \<Longrightarrow> in_bounds x y \<Longrightarrow>
   (\<exists>k\<ge>1. nx = x + k * dx \<and> ny = y + k * dy) \<Longrightarrow>
     count_consecutive_loop b' nx ny dx dy p c = count_consecutive_loop b nx ny dx dy p c"
proof (induction b nx ny dx dy p c rule: count_consecutive_loop.induct)
  case (1 b nx ny dx dy player count)
  from "1.prems"(3) obtain k where k: "k \<ge> 1" "nx = x + k * dx" "ny = y + k * dy" by blast
  show ?case
  proof (cases "(dx \<noteq> 0 \<or> dy \<noteq> 0) \<and> nx \<ge> 0 \<and> nx < BOARD_SIZE \<and> ny \<ge> 0 \<and> ny < BOARD_SIZE")
    case False
    then show ?thesis
      by (subst count_consecutive_loop.simps, subst (2) count_consecutive_loop.simps) auto
  next
    case True
    then have inb': "in_bounds nx ny" by (simp add: in_bounds_def)
    have "nx \<noteq> x \<or> ny \<noteq> y" using k True by auto
    then have "nat (to_index nx ny) \<noteq> nat (to_index x y)"
      using to_index_inj [OF inb' "1.prems"(2)] by blast
    then have g: "get b' nx ny = get b nx ny" by (simp add: get_def "1.prems"(1))
    show ?thesis
    proof (cases "get b nx ny \<noteq> player")
      case ne: True
      with True g show ?thesis
        by (subst count_consecutive_loop.simps, subst (2) count_consecutive_loop.simps) auto
    next
      case eq: False
      have next_k: "\<exists>k\<ge>1. nx + dx = x + k * dx \<and> ny + dy = y + k * dy"
        using k by (intro exI [of _ "k + 1"]) (simp add: algebra_simps)
      have ih: "count_consecutive_loop b' (nx + dx) (ny + dy) dx dy player (count + 1)
              = count_consecutive_loop b (nx + dx) (ny + dy) dx dy player (count + 1)"
        using "1.IH" True eq "1.prems"(1,2) next_k by blast
      have "count_consecutive_loop b' nx ny dx dy player count
            = count_consecutive_loop b' (nx + dx) (ny + dy) dx dy player (count + 1)"
        using True eq g by (subst count_consecutive_loop.simps) auto
      moreover have "count_consecutive_loop b nx ny dx dy player count
            = count_consecutive_loop b (nx + dx) (ny + dy) dx dy player (count + 1)"
        using True eq by (subst count_consecutive_loop.simps) auto
      ultimately show ?thesis using ih by simp
    qed
  qed
qed

lemma count_consecutive_update:
  assumes "cells b' = (cells b)(nat (to_index x y) := v)" "in_bounds x y"
  shows "count_consecutive b' x y dx dy p = count_consecutive b x y dx dy p"
  unfolding count_consecutive_def
  by (rule count_consecutive_loop_update [OF assms]) (rule exI [of _ 1], simp)

lemma four_in_line_update:
  assumes "cells b' = (cells b)(move_index m := v)" "in_bounds (move_x m) (move_y m)"
  shows "four_in_line b' m p = four_in_line b m p"
proof -
  have c: "cells b' = (cells b)(nat (to_index (move_x m) (move_y m)) := v)"
    using assms(1) by (simp add: move_index_def)
  show ?thesis
    unfolding four_in_line_def
    by (simp add: count_consecutive_update [OF c assms(2)])
qed

lemma check_win_placed:
  assumes "in_bounds (move_x m) (move_y m)"
  shows "check_win (placed b m) m = four_in_line b m (current_player b)"
proof -
  have "check_win (placed b m) m = four_in_line (placed b m) m (current_player b)"
    by (simp add: check_win_four_in_line placed_fields)
  also have "\<dots> = four_in_line b m (current_player b)"
    by (rule four_in_line_update [OF placed_fields(1) assms])
  finally show ?thesis .
qed

lemma legal_placed: "legal_mask (placed b m) = legal_mask (make_move b m)"
  by (simp add: legal_make_move placed_def)

lemma is_terminal_make_move:
  assumes "in_bounds (move_x m) (move_y m)"
  shows "is_terminal (make_move b m) =
     (four_in_line b m (current_player b) \<or> legal_mask (make_move b m) = {} \<or> is_terminal b)"
proof -
  have "is_terminal (make_move b m) =
      (check_win (placed b m) m \<or> legal_mask (placed b m) = {} \<or> is_terminal b)"
    by (subst make_move_placed) (simp add: placed_fields)
  then show ?thesis by (simp only: check_win_placed [OF assms] legal_placed)
qed

lemma result_make_move:
  assumes "in_bounds (move_x m) (move_y m)"
  shows "result (make_move b m) =
     (if four_in_line b m (current_player b)
      then (if current_player b = BLACK then BLACK_WIN else WHITE_WIN)
      else if legal_mask (make_move b m) = {} then DRAW else result b)"
proof -
  have "result (make_move b m) =
     (if check_win (placed b m) m
      then (if current_player b = BLACK then BLACK_WIN else WHITE_WIN)
      else if legal_mask (placed b m) = {} then DRAW else result b)"
    by (subst make_move_placed) (simp add: placed_fields)
  then show ?thesis by (simp only: check_win_placed [OF assms] legal_placed)
qed

lemma wins_immediately_iff:
  assumes h: "is_terminal b \<longrightarrow> get_winner b \<noteq> current_player b"
    and p: "current_player b = BLACK \<or> current_player b = WHITE"
    and inb: "in_bounds (move_x m) (move_y m)"
  shows "wins_immediately b m \<longleftrightarrow> four_in_line b m (current_player b)"
proof (cases "four_in_line b m (current_player b)")
  case True
  then show ?thesis
    using p unfolding wins_immediately_def
    by (auto simp: is_terminal_make_move [OF inb] result_make_move [OF inb] get_winner_def)
next
  case False
  have "\<not> (is_terminal (make_move b m) \<and> get_winner (make_move b m) = current_player b)"
  proof (cases "legal_mask (make_move b m) = {}")
    case True
    with False p show ?thesis
      by (auto simp: result_make_move [OF inb] get_winner_def)
  next
    case ne: False
    with False h show ?thesis
      by (auto simp: is_terminal_make_move [OF inb] result_make_move [OF inb] get_winner_def)
  qed
  with False show ?thesis by (simp add: wins_immediately_def)
qed

lemma four_in_line_cells:
  "cells b' = cells b \<Longrightarrow> four_in_line b' m p = four_in_line b m p"
  by (simp add: four_in_line_def count_consecutive_def loops_agree [symmetric])

lemma find_winning_move_eq:
  "find_winning_move b =
     (case find (\<lambda>m. four_in_line b m (current_player b)) (get_legal_moves b) of
        Some m \<Rightarrow> m | None \<Rightarrow> Move_invalid)"
  unfolding find_winning_move_def Move_invalid_def Let_def ..

lemma as_opponent_fields:
  "cells (as_opponent b) = cells b"
  "current_player (as_opponent b) = opponent_of (current_player b)"
  "is_terminal (as_opponent b) = is_terminal b"
  "get_legal_moves (as_opponent b) = get_legal_moves b"
  by (simp_all add: as_opponent_def get_legal_moves_def)

lemma wins_as_opponent_iff:
  assumes h: "is_terminal b \<longrightarrow> get_winner b \<noteq> opponent_of (current_player b)"
    and inb: "in_bounds (move_x m) (move_y m)"
  shows "wins_immediately (as_opponent b) m \<longleftrightarrow> four_in_line b m (opponent_of (current_player b))"
proof -
  have h': "is_terminal (as_opponent b) \<longrightarrow> get_winner (as_opponent b) \<noteq> current_player (as_opponent b)"
    using h by (simp add: as_opponent_def get_winner_def)
  have p': "current_player (as_opponent b) = BLACK \<or> current_player (as_opponent b) = WHITE"
    by (simp add: as_opponent_fields opponent_of_def)
  show ?thesis
    using wins_immediately_iff [OF h' p' inb]
    by (simp add: as_opponent_fields four_in_line_cells [OF as_opponent_fields(1)])
qed




section \<open>Line counts are bounded by the stones on the board\<close>

lemma count_consecutive_loop_run:
  "dx \<noteq> 0 \<or> dy \<noteq> 0 \<Longrightarrow>
   \<exists>n::nat. count_consecutive_loop b nx ny dx dy p c = c + int n \<and>
      (\<forall>j<n. in_bounds (nx + int j * dx) (ny + int j * dy) \<and>
              cells b (nat (to_index (nx + int j * dx) (ny + int j * dy))) = p)"
proof (induction b nx ny dx dy p c rule: count_consecutive_loop.induct)
  case (1 b nx ny dx dy player count)
  show ?case
  proof (cases "nx \<ge> 0 \<and> nx < BOARD_SIZE \<and> ny \<ge> 0 \<and> ny < BOARD_SIZE \<and> get b nx ny = player")
    case False
    then have "count_consecutive_loop b nx ny dx dy player count = count + int 0"
      by (subst count_consecutive_loop.simps) auto
    then show ?thesis by (intro exI [of _ 0]) simp
  next
    case True
    with "1.IH" "1.prems" obtain n where
      n: "count_consecutive_loop b (nx + dx) (ny + dy) dx dy player (count + 1)
            = count + 1 + int n"
      and c: "\<forall>j<n. in_bounds (nx + dx + int j * dx) (ny + dy + int j * dy) \<and>
              cells b (nat (to_index (nx + dx + int j * dx) (ny + dy + int j * dy))) = player"
      by blast
    have "count_consecutive_loop b nx ny dx dy player count
          = count_consecutive_loop b (nx + dx) (ny + dy) dx dy player (count + 1)"
      using True "1.prems" by (subst count_consecutive_loop.simps) auto
    with n have v: "count_consecutive_loop b nx ny dx dy player count = count + int (Suc n)"
      by simp
    have "in_bounds (nx + int j * dx) (ny + int j * dy) \<and>
          cells b (nat (to_index (nx + int j * dx) (ny + int j * dy))) = player"
      if "j < Suc n" for j
    proof (cases j)
      case 0
      with True show ?thesis by (simp add: in_bounds_def get_def)
    next
      case (Suc j')
      with that have "j' < n" by simp
      with c have "in_bounds (nx + dx + int j' * dx) (ny + dy + int j' * dy) \<and>
              cells b (nat (to_index (nx + dx + int j' * dx) (ny + dy + int j' * dy))) = player"
        by blast
      moreover have "nx + dx + int j' * dx = nx + int j * dx" "ny + dy + int j' * dy = ny + int j * dy"
        using Suc by (simp_all add: algebra_simps)
      ultimately show ?thesis by simp
    qed
    with v show ?thesis by blast
  qed
qed

lemma two_rays_bound:
  assumes d: "dx \<noteq> 0 \<or> dy \<noteq> 0"
  shows "count_consecutive b x y dx dy p + count_consecutive b x y (- dx) (- dy) p
           \<le> int (card (stones b p))"
proof -
  let ?f = "\<lambda>k::int. nat (to_index (x + k * dx) (y + k * dy))"
  from count_consecutive_loop_run [OF d, of b "x + dx" "y + dy" p 0]
  obtain n where n: "count_consecutive b x y dx dy p = int n"
    and cn: "\<forall>j<n. in_bounds (x + dx + int j * dx) (y + dy + int j * dy) \<and>
              cells b (nat (to_index (x + dx + int j * dx) (y + dy + int j * dy))) = p"
    unfolding count_consecutive_def by auto
  have d': "- dx \<noteq> 0 \<or> - dy \<noteq> 0" using d by simp
  from count_consecutive_loop_run [OF d', of b "x + - dx" "y + - dy" p 0]
  obtain m where m: "count_consecutive b x y (- dx) (- dy) p = int m"
    and cm: "\<forall>j<m. in_bounds (x + - dx + int j * - dx) (y + - dy + int j * - dy) \<and>
              cells b (nat (to_index (x + - dx + int j * - dx) (y + - dy + int j * - dy))) = p"
    unfolding count_consecutive_def by auto
  let ?K = "{1 .. int n} \<union> {- int m .. - 1}"
  have on: "in_bounds (x + k * dx) (y + k * dy) \<and> cells b (?f k) = p" if "k \<in> ?K" for k
  proof (cases "k \<ge> 1")
    case True
    define j where "j = nat (k - 1)"
    have ij: "int j = k - 1" using True by (simp add: j_def)
    from that True have "j < n" by (auto simp: j_def)
    with cn have "in_bounds (x + dx + int j * dx) (y + dy + int j * dy) \<and>
      cells b (nat (to_index (x + dx + int j * dx) (y + dy + int j * dy))) = p"
      by blast
    moreover have "x + dx + int j * dx = x + k * dx" "y + dy + int j * dy = y + k * dy"
      by (simp_all add: ij algebra_simps)
    ultimately show ?thesis by (simp only:)
  next
    case False
    with that have k: "k \<le> - 1" "- int m \<le> k" by auto
    define j where "j = nat (- k - 1)"
    have ij: "int j = - k - 1" using k by (simp add: j_def)
    from k have "j < m" by (auto simp: j_def)
    with cm have "in_bounds (x + - dx + int j * - dx) (y + - dy + int j * - dy) \<and>
      cells b (nat (to_index (x + - dx + int j * - dx) (y + - dy + int j * - dy))) = p"
      by blast
    moreover have "x + - dx + int j * - dx = x + k * dx" "y + - dy + int j * - dy = y + k * dy"
      by (simp_all add: ij algebra_simps)
    ultimately show ?thesis by (simp only:)
  qed
  have inj: "inj_on ?f ?K"
  proof (rule inj_onI)
    fix k k' assume k: "k \<in> ?K" "k' \<in> ?K" and e: "?f k = ?f k'"
    from to_index_inj [OF conjunct1 [OF on [OF k(1)]] conjunct1 [OF on [OF k(2)]] e]
    have "k * dx = k' * dx" "k * dy = k' * dy" by simp_all
    then have "(k - k') * dx = 0" "(k - k') * dy = 0" by (simp_all add: algebra_simps)
    with d show "k = k'" by auto
  qed
  have sub: "?f ` ?K \<subseteq> stones b p"
    using on by (auto simp: stones_def intro: to_index_bound)
  have "finite (stones b p)" by (simp add: stones_def)
  from card_mono [OF this sub] have "card (?f ` ?K) \<le> card (stones b p)" .
  moreover have "card (?f ` ?K) = card ?K" by (rule card_image [OF inj])
  moreover have "card ?K = n + m"
  proof -
    have "card ?K = card {1 .. int n} + card {- int m .. - 1}"
      by (rule card_Un_disjoint) auto
    then show ?thesis by simp
  qed
  ultimately show ?thesis using n m by simp
qed

lemma four_in_line_stones: "four_in_line b m p \<Longrightarrow> 4 \<le> card (stones b p)"
proof -
  assume "four_in_line b m p"
  then obtain dx dy where "(dx, dy) \<in> set heuristic_directions"
    and c: "count_consecutive b (move_x m) (move_y m) dx dy p
           + count_consecutive b (move_x m) (move_y m) (- dx) (- dy) p \<ge> 4"
    by (auto simp: four_in_line_def list_ex_iff)
  then have "dx \<noteq> 0 \<or> dy \<noteq> 0" by (auto simp: heuristic_directions_def)
  from two_rays_bound [OF this, of b "move_x m" "move_y m" p] c show ?thesis by linarith
qed

lemma evaluate_line_stones:
  assumes "dx \<noteq> 0 \<or> dy \<noteq> 0" "evaluate_line b x y dx dy p \<ge> SCORE_FOUR_OPEN"
  shows "3 \<le> card (stones b p)"
proof -
  have "count_consecutive b x y dx dy p + count_consecutive b x y (- dx) (- dy) p \<ge> 3"
    using assms(2) unfolding evaluate_line_def Let_def
    by (simp split: if_splits)
  with two_rays_bound [OF assms(1), of b x y p] show ?thesis by linarith
qed

lemma find_winning_move_few_stones:
  assumes "card (stones b (current_player b)) < 4"
  shows "find_winning_move b = Move_invalid"
proof -
  have "\<not> four_in_line b m (current_player b)" for m
    using four_in_line_stones [of b m "current_player b"] assms by auto
  then have "find (\<lambda>m. four_in_line b m (current_player b)) (get_legal_moves b) = None"
    by (simp add: find_None_iff)
  then show ?thesis by (simp add: find_winning_move_eq)
qed

lemma threat_step_quiet:
  assumes "evaluate_line b (move_x m) (move_y m) (fst d) (snd d) opponent < SCORE_FOUR_OPEN"
  shows "threat_step b opponent m best d = best"
  using assms by (simp add: threat_step_def Let_def)

lemma find_blocking_move_few_stones:
  assumes "card (stones b (opponent_of (current_player b))) < 3"
  shows "find_blocking_move b = Move_invalid"
proof -
  let ?o = "opponent_of (current_player b)"
  have "\<not> four_in_line b m ?o" for m
    using four_in_line_stones [of b m ?o] assms by auto
  then have f: "find (\<lambda>m. four_in_line b m ?o) (get_legal_moves b) = None"
    by (simp add: find_None_iff)
  have q: "evaluate_line b x y (fst d) (snd d) ?o < SCORE_FOUR_OPEN"
    if "d \<in> set heuristic_directions" for x y d
  proof -
    from that have "fst d \<noteq> 0 \<or> snd d \<noteq> 0" by (auto simp: heuristic_directions_def)
    from evaluate_line_stones [OF this, of b x y ?o] assms show ?thesis by force
  qed
  have inner: "foldl (threat_step b ?o m) best ds = best" if "set ds \<subseteq> set heuristic_directions"
    for m best ds
    using that by (induction ds arbitrary: best) (simp_all add: threat_step_quiet q)
  have outer: "foldl (\<lambda>best m. foldl (threat_step b ?o m) best heuristic_directions) best ms = best"
    for best ms
    by (induction ms arbitrary: best) (simp_all add: inner)
  show ?thesis
    by (simp add: find_blocking_move_def Let_def f outer Move_invalid_def)
qed

lemma stones_subset_card:
  "stones b p \<subseteq> T \<Longrightarrow> finite T \<Longrightarrow> card T < n \<Longrightarrow> card (stones b p) < n"
  using card_mono [of T "stones b p"] by linarith

section \<open>The moves that is_legal accepts and the moves enumerated\<close>

lemma is_legal_in_bounds: "is_legal b x y \<Longrightarrow> in_bounds x y"
  by (simp add: is_legal_def split: if_splits)

lemma no_line_on_empty_board:
  assumes inv: "board_inv b" and h: "history b = []" and q: "q \<noteq> EMPTY"
  shows "\<not> four_in_line b m q"
proof -
  have "occupied_mask b = {}" using inv_history [OF inv] h by simp
  then have "cells b i = EMPTY" for i using inv_occupied [OF inv] by auto
  then have "stones b q = {}" using q by (auto simp: stones_def)
  then show ?thesis using four_in_line_stones [of b m q] by auto
qed

lemma legal_readings_agree:
  assumes r: "reachable b" and q: "q \<noteq> EMPTY"
  shows "(\<exists>x y. is_legal b x y \<and> four_in_line b (Move x y) q)
         \<longleftrightarrow> (\<exists>m\<in>set (get_legal_moves b). four_in_line b m q)"
proof (cases "history b = []")
  case True
  then show ?thesis
    using no_line_on_empty_board [OF reachable_board_inv [OF r] True q] by blast
next
  case False
  have inv: "board_inv b" by (rule reachable_board_inv [OF r])
  show ?thesis
  proof
    assume "\<exists>x y. is_legal b x y \<and> four_in_line b (Move x y) q"
    then obtain x y where l: "is_legal b x y" and f: "four_in_line b (Move x y) q" by blast
    from l False have "nat (to_index x y) \<in> legal_mask b"
      by (simp add: is_legal_def split: if_splits)
    then have "Move x y \<in> set (get_legal_moves b)"
      using Move_in_get_legal_moves [OF False is_legal_in_bounds [OF l]] by blast
    with f show "\<exists>m\<in>set (get_legal_moves b). four_in_line b m q" by blast
  next
    assume "\<exists>m\<in>set (get_legal_moves b). four_in_line b m q"
    then obtain m where m: "m \<in> set (get_legal_moves b)" and f: "four_in_line b m q" by blast
    from m obtain i where i: "m = Move (to_x i) (to_y i)" "i \<in> legal_mask b" "i < BOARD_CELLS"
      unfolding set_get_legal_moves [OF False] by blast
    have "i \<notin> occupied_mask b" using inv_legal [OF inv] i(2) by blast
    then have "is_legal b (to_x i) (to_y i)"
      using i(2,3) False by (simp add: is_legal_def in_bounds_to_xy to_index_to_xy)
    with f i(1) show "\<exists>x y. is_legal b x y \<and> four_in_line b (Move x y) q" by blast
  qed
qed


lemma legal_threat_readings_agree:
  assumes r: "reachable b"
    and h: "is_terminal b \<longrightarrow> get_winner b \<noteq> opponent_of (current_player b)"
  shows "(\<exists>x y. is_legal b x y \<and> wins_immediately (as_opponent b) (Move x y))
         \<longleftrightarrow> (\<exists>m\<in>set (get_legal_moves b). wins_immediately (as_opponent b) m)"
proof -
  have q: "opponent_of (current_player b) \<noteq> EMPTY" by (simp add: opponent_of_def)
  have a: "wins_immediately (as_opponent b) (Move x y)
           \<longleftrightarrow> four_in_line b (Move x y) (opponent_of (current_player b))"
    if "is_legal b x y" for x y
    using wins_as_opponent_iff [OF h, of "Move x y"] is_legal_in_bounds [OF that]
    by (simp add: Move_sel)
  have c: "wins_immediately (as_opponent b) m \<longleftrightarrow> four_in_line b m (opponent_of (current_player b))"
    if "m \<in> set (get_legal_moves b)" for m
    by (rule wins_as_opponent_iff [OF h get_legal_moves_in_bounds [OF that]])
  from a c legal_readings_agree [OF r q] show ?thesis by blast
qed


section \<open>A line of three needs two stones side by side\<close>











section \<open>The search and the parser\<close>

lemma rollout_terminal:
  "is_terminal b \<Longrightarrow>
     rollout config heuristic_rollout random_rollout b =
       (if get_winner b = EMPTY then 0 else if get_winner b = current_player b then - 1 else 1)"
  by (simp add: rollout_def Let_def)

lemma search_loop_zero:
  assumes "0 \<le> elapsed 0"
  shows "search_loop max_iter elapsed iterate 0 root_node 0 = (root_node, 0)"
  using assms by (subst search_loop.simps) simp

lemma isdigit_not_other:
  assumes "isdigit c"
  shows "\<not> isalpha c" "\<not> isspace c" "c \<noteq> CHR ''-''" "c \<noteq> CHR ''+''" "c \<noteq> CHR '',''"
  using assms by (auto simp: isdigit_def isalpha_def isspace_def Let_def)

lemma digits_value_snoc:
  "digits_value (ds @ [c]) = 10 * digits_value ds + (int (of_char c) - 48)"
  by (simp add: digits_value_def)

lemma digits_value_nonneg: "\<forall>c\<in>set ds. isdigit c \<Longrightarrow> 0 \<le> digits_value ds"
proof (induction ds rule: rev_induct)
  case Nil
  then show ?case by (simp add: digits_value_def)
next
  case (snoc c ds)
  then have "0 \<le> digits_value ds" "48 \<le> (of_char c :: nat)"
    by (simp_all add: isdigit_def Let_def)
  then show ?case by (simp add: digits_value_snoc)
qed

lemma stoi_digits:
  assumes "ds \<noteq> []" "\<forall>c\<in>set ds. isdigit c"
  shows "stoi ds = (if digits_value ds > 2147483647 then None else Some (digits_value ds))"
proof -
  from assms(1) obtain c r where ds: "ds = c # r" by (cases ds) auto
  have c: "isdigit c" using assms(2) ds by simp
  have s1: "dropWhile isspace ds = ds" using isdigit_not_other(2) [OF c] ds by simp
  have tw: "takeWhile isdigit ds = ds" using assms(2) by (simp add: takeWhile_eq_all_conv)
  have nn: "0 \<le> digits_value ds" by (rule digits_value_nonneg [OF assms(2)])
  show ?thesis
    unfolding stoi_def s1 Let_def
    using isdigit_not_other(3,4) [OF c] tw assms(1) nn
    by (simp add: ds)
qed

lemma parse_move_stoi:
  assumes "2 \<le> length s" "\<not> isalpha (s ! 0)" "CHR '','' \<in> set s"
  shows "parse_move s =
    (case stoi (takeWhile (\<lambda>c. c \<noteq> CHR '','') s) of
       None \<Rightarrow> Move_invalid
     | Some x \<Rightarrow>
         (case stoi (drop (Suc (length (takeWhile (\<lambda>c. c \<noteq> CHR '','') s))) s) of
            None \<Rightarrow> Move_invalid
          | Some y \<Rightarrow> if in_bounds x y then Move x y else Move_invalid))"
proof -
  have "take (length (takeWhile (\<lambda>c. c \<noteq> CHR '','') s)) s = takeWhile (\<lambda>c. c \<noteq> CHR '','') s"
    by (metis append_eq_conv_conj takeWhile_dropWhile_id)
  then show ?thesis
    using assms
    by (simp add: parse_move_def Let_def move_if_in_bounds_def Move_invalid_def
        split: option.splits)
qed

lemma parse_move_result:
  "parse_move s = Move_invalid \<or> in_bounds (move_x (parse_move s)) (move_y (parse_move s))"
  by (auto simp: parse_move_def Let_def move_if_in_bounds_def Move_invalid_def Move_sel
      split: option.splits)

lemma parse_move_digits:
  assumes "xs \<noteq> []" "ys \<noteq> []" "\<forall>c\<in>set xs. isdigit c" "\<forall>c\<in>set ys. isdigit c"
  shows "parse_move (xs @ '','' @ ys) =
     (if digits_value xs < 15 \<and> digits_value ys < 15
      then Move (digits_value xs) (digits_value ys) else Move_invalid)"
proof -
  let ?s = "xs @ '','' @ ys"
  from assms(1) obtain c r where xs: "xs = c # r" by (cases xs) auto
  have c: "isdigit c" using assms(3) xs by simp
  have len: "2 \<le> length ?s" using assms(1,2) by (cases xs; cases ys) simp_all
  have na: "\<not> isalpha (?s ! 0)" using isdigit_not_other(1) [OF c] by (simp add: xs)
  have cm: "CHR '','' \<in> set ?s" by simp
  have "\<forall>c\<in>set xs. c \<noteq> CHR '',''" using assms(3) isdigit_not_other(5) by blast
  then have tw: "takeWhile (\<lambda>c. c \<noteq> CHR '','') ?s = xs" by (simp add: takeWhile_append2)
  have dr: "drop (Suc (length xs)) ?s = ys" by simp
  have nx: "0 \<le> digits_value xs" by (rule digits_value_nonneg [OF assms(3)])
  have ny: "0 \<le> digits_value ys" by (rule digits_value_nonneg [OF assms(4)])
  show ?thesis
    unfolding parse_move_stoi [OF len na cm] tw dr
      stoi_digits [OF assms(1,3)] stoi_digits [OF assms(2,4)]
    using nx ny by (auto simp: in_bounds_def)
qed

lemma parse_move_short: "length s < 2 \<Longrightarrow> parse_move s = Move_invalid"
  by (simp add: parse_move_def Move_invalid_def)

lemma parse_move_letter:
  assumes "2 \<le> length s" "isalpha (s ! 0)"
  shows "parse_move s =
    (case stoi (drop 1 s) of
       None \<Rightarrow> Move_invalid
     | Some v \<Rightarrow>
         if in_bounds (int (of_char (tolower (s ! 0))) - 97) (v - 1)
         then Move (int (of_char (tolower (s ! 0))) - 97) (v - 1) else Move_invalid)"
  using assms
  by (simp add: parse_move_def Let_def move_if_in_bounds_def Move_invalid_def
      split: option.splits)

lemma parse_move_neither:
  assumes "2 \<le> length s" "\<not> isalpha (s ! 0)" "CHR '','' \<notin> set s"
  shows "parse_move s = Move_invalid"
  using assms
  by (simp add: parse_move_def move_if_in_bounds_def Move_invalid_def in_bounds_def)

section \<open>Evaluating concrete games\<close>



lemmas board_eval =
  cells_make_move player_make_move occupied_make_move history_make_move
  reset_def move_index_Move Move_sel to_index_def in_bounds_def get_def

lemmas line_eval =
  four_in_line_def heuristic_directions_def count_consecutive_def count_consecutive_loop.simps





lemma won_board:
  "is_terminal (make_move (play won_game) (Move 7 7))"
  "result (make_move (play won_game) (Move 7 7)) = BLACK_WIN"
  "current_player (make_move (play won_game) (Move 7 7)) = WHITE"
proof -
  have four: "four_in_line (play won_game) (Move 7 7) (current_player (play won_game))"
    by (simp add: play_def won_game_def board_eval line_eval)
  have pl: "current_player (play won_game) = BLACK"
    by (simp add: play_def won_game_def board_eval)
  have inb: "in_bounds (move_x (Move 7 7)) (move_y (Move 7 7))"
    by (simp add: Move_sel in_bounds_def)
  show "is_terminal (make_move (play won_game) (Move 7 7))"
    using four by (simp add: is_terminal_make_move [OF inb])
  show "result (make_move (play won_game) (Move 7 7)) = BLACK_WIN"
    using four pl by (simp add: result_make_move [OF inb])
  show "current_player (make_move (play won_game) (Move 7 7)) = WHITE"
    using pl by (simp add: player_make_move)
qed

lemma black_one: "card (stones (play [Move 7 7]) BLACK) < 3"
proof (rule stones_subset_card)
  show "stones (play [Move 7 7]) BLACK \<subseteq> {112}"
    by (auto simp: stones_def play_def board_eval split: if_splits)
qed simp_all

lemma white_none: "card (stones (play [Move 7 7]) WHITE) < 4"
proof (rule stones_subset_card)
  show "stones (play [Move 7 7]) WHITE \<subseteq> {}"
    by (auto simp: stones_def play_def board_eval split: if_splits)
qed simp_all









section \<open>Immediate wins\<close>




section \<open>Blocking an immediate win\<close>




section \<open>Invariants of the reachable boards\<close>

text \<open>
  C3. On every board produced by \<open>reset\<close>, by \<open>make_move\<close> on an in-bounds empty
  cell and by \<open>unmake_move\<close> of the last move of the history: the legal mask and the
  occupied mask are disjoint, \<open>move_count\<close> is the number of set bits of the occupied
  mask and the length of the history, and black is to move exactly when \<open>move_count\<close>
  is even.
\<close>

theorem board_invariants:
  "reachable b \<Longrightarrow>
     legal_mask b \<inter> occupied_mask b = {}
     \<and> move_count b = int (card (occupied_mask b))
     \<and> move_count b = int (length (history b))
     \<and> (current_player b = BLACK \<longleftrightarrow> even (move_count b))"
proof -
  assume "reachable b"
  then have inv: "board_inv b" by (rule reachable_board_inv)
  have "legal_mask b \<inter> occupied_mask b = {}" by (rule inv_legal [OF inv])
  moreover have "move_count b = int (card (occupied_mask b))"
    using board_inv_card [OF inv] by (simp add: move_count_def)
  moreover have "move_count b = int (length (history b))" by (simp add: move_count_def)
  moreover have "current_player b = BLACK \<longleftrightarrow> even (move_count b)"
    by (simp add: inv_player [OF inv] move_count_def)
  ultimately show ?thesis by blast
qed

theorem board_invariants_witness:
  "reachable (unmake_move (make_move (make_move reset (Move 7 7)) (Move 8 7)) (Move 8 7))
   \<and> legal_mask (unmake_move (make_move (make_move reset (Move 7 7)) (Move 8 7)) (Move 8 7))
       \<inter> occupied_mask (unmake_move (make_move (make_move reset (Move 7 7)) (Move 8 7)) (Move 8 7)) = {}
   \<and> move_count (unmake_move (make_move (make_move reset (Move 7 7)) (Move 8 7)) (Move 8 7)) = 1
   \<and> card (occupied_mask (unmake_move (make_move (make_move reset (Move 7 7)) (Move 8 7)) (Move 8 7))) = 1
   \<and> current_player (unmake_move (make_move (make_move reset (Move 7 7)) (Move 8 7)) (Move 8 7)) = WHITE"
proof -
  let ?b1 = "make_move reset (Move 7 7)"
  let ?b2 = "make_move ?b1 (Move 8 7)"
  let ?b3 = "unmake_move ?b2 (Move 8 7)"
  have r1: "reachable ?b1"
    by (rule reach_make_move [OF reach_reset])
       (simp_all add: Move_def in_bounds_def reset_def)
  have r2: "reachable ?b2"
    by (rule reach_make_move [OF r1])
       (simp_all add: Move_def in_bounds_def reset_def cells_make_move move_index_def to_index_def)
  have r3: "reachable ?b3"
    by (rule reach_unmake_move [OF r2]) (simp_all add: history_make_move)
  have mc: "move_count ?b3 = 1"
    by (simp add: move_count_def unmake_move_nonempty history_make_move reset_def)
  have pl: "current_player ?b3 = WHITE"
    by (simp add: unmake_move_nonempty history_make_move player_make_move reset_def)
  from board_invariants [OF r3] mc pl r3 show ?thesis by simp
qed

section \<open>Undoing a whole game\<close>

text \<open>
  C4, as amended. For every list of moves, each legal when applied in order to a fresh
  board, playing them all and undoing them in reverse order gives back the fresh board
  in every field but the legal mask: cells, occupied, black and white masks, history,
  side to move, terminal flag and result are those of \<open>reset\<close>. The legal mask is
  the fresh (empty) one when the list is empty, and holds exactly the centre bit
  \<open>(7, 7)\<close> otherwise, which \<open>unmake_move\<close> sets when the history becomes empty.
\<close>

theorem undo_all_restores_fresh_board:
  "legal_sequence reset ms \<Longrightarrow>
     undo_all (play ms) (rev ms) =
       (if ms = [] then reset else reset\<lparr>legal_mask := {nat (to_index 7 7)}\<rparr>)"
proof (cases "ms = []")
  case True
  then show ?thesis by (simp add: undo_all_def play_def)
next
  case False
  assume "legal_sequence reset ms"
  from undo_all_play_general [OF board_inv_reset this False]
  show ?thesis using False
    by (simp add: play_def rebuild_legal_mask_def reset_def)
qed

theorem undo_all_restores_fresh_board_witness:
  "legal_sequence reset [Move 7 7, Move 8 8]
   \<and> undo_all (play [Move 7 7, Move 8 8]) (rev [Move 7 7, Move 8 8])
       = reset\<lparr>legal_mask := {nat (to_index 7 7)}\<rparr>"
proof -
  have "is_legal reset 7 7"
    by (simp add: is_legal_def in_bounds_def is_empty_cell_def reset_def)
  moreover have "is_legal (make_move reset (Move 7 7)) 8 8"
    by (rule is_legal_after_move) (simp_all add: board_eval)
  ultimately have l: "legal_sequence reset [Move 7 7, Move 8 8]"
    by (simp add: Move_sel)
  from undo_all_restores_fresh_board [OF l] l show ?thesis by simp
qed

text \<open>
  C4 as stated fails: after playing \<open>(7, 7)\<close> on a fresh board and undoing it, the
  legal mask holds bit 112, while the legal mask of a fresh board is empty.
\<close>

theorem undo_all_counterexample:
  "legal_sequence reset [Move 7 7]
   \<and> legal_mask (undo_all (play [Move 7 7]) (rev [Move 7 7])) = {112}
   \<and> legal_mask reset = {}
   \<and> undo_all (play [Move 7 7]) (rev [Move 7 7]) \<noteq> reset"
proof -
  have l: "legal_sequence reset [Move 7 7]"
    by (simp add: is_legal_def in_bounds_def Move_def is_empty_cell_def reset_def)
  have m: "legal_mask (undo_all (play [Move 7 7]) (rev [Move 7 7])) = {112}"
    by (simp add: undo_all_def play_def unmake_move_nonempty history_make_move
          rebuild_legal_mask_def reset_def to_index_def)
  have r: "legal_mask reset = {}" by (simp add: reset_def)
  from l m r show ?thesis by auto
qed

section \<open>The first move\<close>

text \<open>
  C5, as amended. On a board with empty history \<open>get_legal_moves\<close> returns exactly
  the single move \<open>(7, 7)\<close>, while \<open>is_legal\<close> accepts every in-bounds cell that is
  empty; on a reachable board with empty history that is every in-bounds cell, not the
  centre only.
\<close>

theorem first_move_legality:
  "history b = [] \<Longrightarrow>
     get_legal_moves b = [Move 7 7]
     \<and> (is_legal b x y \<longleftrightarrow> in_bounds x y \<and> cells b (nat (to_index x y)) = EMPTY)
     \<and> (reachable b \<longrightarrow> (is_legal b x y \<longleftrightarrow> in_bounds x y))"
proof -
  assume h: "history b = []"
  have 1: "get_legal_moves b = [Move 7 7]" using h by (simp add: get_legal_moves_def)
  have 2: "is_legal b x y \<longleftrightarrow> in_bounds x y \<and> cells b (nat (to_index x y)) = EMPTY"
    using h by (simp add: is_legal_def is_empty_cell_def)
  have 3: "is_legal b x y \<longleftrightarrow> in_bounds x y" if "reachable b"
  proof -
    have inv: "board_inv b" by (rule reachable_board_inv [OF that])
    have "occupied_mask b = {}" using inv_history [OF inv] h by simp
    then have "cells b i = EMPTY" for i using inv_occupied [OF inv] by auto
    with 2 show ?thesis by simp
  qed
  from 1 2 3 show ?thesis by blast
qed

theorem first_move_legality_witness:
  "history reset = [] \<and> reachable reset \<and> get_legal_moves reset = [Move 7 7]
   \<and> is_legal reset 0 0 \<and> is_legal reset 14 3 \<and> \<not> is_legal reset 15 3"
  using first_move_legality [of reset 0 0] first_move_legality [of reset 14 3]
    first_move_legality [of reset 15 3] reach_reset
  by (simp add: reset_def in_bounds_def)

text \<open>
  C5 as stated fails: on the fresh board \<open>is_legal\<close> accepts the corner \<open>(0, 0)\<close>.
\<close>

theorem first_move_legality_counterexample:
  "history reset = [] \<and> in_bounds 0 0 \<and> Move 0 0 \<noteq> Move 7 7 \<and> is_legal reset 0 0"
  by (simp add: reset_def in_bounds_def Move_def is_legal_def is_empty_cell_def)

section \<open>The rollout value of a terminal board\<close>

text \<open>
  C6, as amended. When the board passed to \<open>rollout\<close> is already terminal, the value
  is 0 if there is no winner (in particular if the result is a draw), -1 if the board's
  current player (the player who would move next) equals the winner, and +1 otherwise.
\<close>

theorem rollout_terminal_value:
  "is_terminal b \<Longrightarrow>
     rollout config heuristic_rollout random_rollout b =
       (if get_winner b = EMPTY then 0
        else if current_player b = get_winner b then - 1 else 1)
     \<and> (result b = DRAW \<longrightarrow> rollout config heuristic_rollout random_rollout b = 0)"
  by (auto simp: rollout_terminal get_winner_def)

theorem rollout_terminal_value_witness:
  "is_terminal (make_move (play won_game) (Move 7 7))
   \<and> get_winner (make_move (play won_game) (Move 7 7)) = BLACK
   \<and> current_player (make_move (play won_game) (Move 7 7)) = WHITE
   \<and> rollout default_config (\<lambda>_. 0) (\<lambda>_. 0) (make_move (play won_game) (Move 7 7)) = 1"
  using rollout_terminal_value [OF won_board(1), of default_config "\<lambda>_. 0" "\<lambda>_. 0"] won_board
  by (simp add: get_winner_def)

text \<open>
  C6 as stated fails: after black completes five in a row the board is terminal, not
  drawn, and its current player (white) is not the winner; the claim gives -1 there, and
  \<open>rollout\<close> does not return -1 (it returns +1).
\<close>

theorem rollout_terminal_value_counterexample:
  "is_terminal (make_move (play won_game) (Move 7 7))
   \<and> result (make_move (play won_game) (Move 7 7)) \<noteq> DRAW
   \<and> current_player (make_move (play won_game) (Move 7 7))
       \<noteq> get_winner (make_move (play won_game) (Move 7 7))
   \<and> rollout default_config (\<lambda>_. 0) (\<lambda>_. 0) (make_move (play won_game) (Move 7 7)) \<noteq> - 1"
  using won_board by (simp add: rollout_terminal get_winner_def)

section \<open>Search with a zero time limit\<close>

text \<open>
  C7. On every board where \<open>find_winning_move\<close> and \<open>find_blocking_move\<close> both
  return the invalid move and the root does not have exactly one untried move (more than
  one, or none), \<open>search\<close> with a time limit of 0 ms, on a clock whose first reading
  is not negative, performs no iteration (\<open>iterations_\<close> is 0 afterwards, whatever
  the body of the loop would do) and returns the first untried root move when there is
  one, and the invalid move when there is none.
\<close>

theorem search_zero_budget:
  assumes nowin: "find_winning_move b = Move_invalid"
    and noblock: "find_blocking_move b = Move_invalid"
    and several: "length (get_legal_moves b) \<noteq> 1"
    and clock: "0 \<le> elapsed 0"
  shows "search config elapsed iterate iterations0 b 0 =
           (case get_legal_moves b of [] \<Rightarrow> Move_invalid | m # ms \<Rightarrow> m, 0)"
proof -
  have inv: "\<not> is_valid Move_invalid" by (simp add: Move_invalid_def Move_def is_valid_def)
  show ?thesis
    using several inv
    by (cases "get_legal_moves b")
       (simp_all add: search_def nowin noblock Let_def search_loop_zero [where elapsed = elapsed, OF clock]
          select_best_move_def Move_invalid_def)
qed

theorem search_zero_budget_witness:
  "find_winning_move (play [Move 7 7]) = Move_invalid
   \<and> find_blocking_move (play [Move 7 7]) = Move_invalid
   \<and> length (get_legal_moves (play [Move 7 7])) \<noteq> 1
   \<and> (\<exists>m ms. get_legal_moves (play [Move 7 7]) = m # ms
        \<and> search default_config (\<lambda>k. k) (\<lambda>k t. t) 5 (play [Move 7 7]) 0 = (m, 0))"
proof -
  let ?b = "play [Move 7 7]"
  have pl: "current_player ?b = WHITE" by (simp add: play_def board_eval)
  have nw: "find_winning_move ?b = Move_invalid"
    by (rule find_winning_move_few_stones) (simp add: pl white_none)
  have nb: "find_blocking_move ?b = Move_invalid"
    by (rule find_blocking_move_few_stones) (simp add: pl opponent_of_def black_one)
  have a: "Move 8 8 \<in> set (get_legal_moves ?b)"
    unfolding play_def foldl.simps by (rule legal_after_move) (simp_all add: board_eval)
  have c: "Move 6 6 \<in> set (get_legal_moves ?b)"
    unfolding play_def foldl.simps by (rule legal_after_move) (simp_all add: board_eval)
  have ne: "Move 8 8 \<noteq> Move 6 6" by (simp add: Move_eq_iff)
  have len: "length (get_legal_moves ?b) \<noteq> 1"
  proof
    assume "length (get_legal_moves ?b) = 1"
    then obtain m where "get_legal_moves ?b = [m]" by (auto simp: length_Suc_conv)
    with a c ne show False by simp
  qed
  from a obtain m ms where l: "get_legal_moves ?b = m # ms"
    by (cases "get_legal_moves ?b") auto
  have "search default_config (\<lambda>k. k) (\<lambda>k t. t) 5 ?b 0 = (m, 0)"
    using search_zero_budget [OF nw nb len, of "\<lambda>k. k" default_config "\<lambda>k t. t" 5] l by simp
  with nw nb len l show ?thesis by blast
qed

section \<open>Undoing on an empty history\<close>

text \<open>
  C8. \<open>unmake_move\<close> on a board whose history is empty returns at once: the board is
  unchanged in every field, whatever the move argument.
\<close>

theorem unmake_move_empty_history_noop:
  "history b = [] \<Longrightarrow> unmake_move b m = b"
  by (simp add: unmake_move_def)

theorem unmake_move_empty_history_noop_witness:
  "history reset = [] \<and> unmake_move reset (Move 3 4) = reset"
  using unmake_move_empty_history_noop [of reset "Move 3 4"]
  by (simp add: reset_def)

section \<open>Enumerating the legal moves of a terminal board\<close>



section \<open>The comma form of the move parser\<close>

text \<open>
  C10. \<open>parse_move\<close> accepts a comma-separated pair of 0-based integers besides the
  letter-number notation. For every two non-empty strings of decimal digits \<open>xs\<close> and
  \<open>ys\<close>, \<open>parse_move\<close> on \<open>xs,ys\<close> returns the move with these coordinates when
  both are below 15, and the invalid move otherwise. More generally, for every string
  of at least two characters that does not start with a letter and contains a comma,
  the result is decided by \<open>stoi\<close> on the parts before and after the first comma:
  the invalid move when either part does not parse or the pair is out of bounds, the
  move \<open>(x, y)\<close> otherwise. The letter branch is decided by the column letter and
  \<open>stoi\<close> on the rest in the same way; a string that is too short, or has neither a
  leading letter nor a comma, gives the invalid move. So on every input the result is
  the invalid move or an in-bounds move.
\<close>

theorem parse_move_comma_form:
  "(xs \<noteq> [] \<and> ys \<noteq> [] \<and> (\<forall>c\<in>set xs. isdigit c) \<and> (\<forall>c\<in>set ys. isdigit c) \<longrightarrow>
      parse_move (xs @ '','' @ ys) =
        (if digits_value xs < 15 \<and> digits_value ys < 15
         then Move (digits_value xs) (digits_value ys) else Move_invalid))
   \<and> (2 \<le> length s \<and> \<not> isalpha (s ! 0) \<and> CHR '','' \<in> set s \<longrightarrow>
        parse_move s =
          (case stoi (takeWhile (\<lambda>c. c \<noteq> CHR '','') s) of
             None \<Rightarrow> Move_invalid
           | Some x \<Rightarrow>
               (case stoi (drop (Suc (length (takeWhile (\<lambda>c. c \<noteq> CHR '','') s))) s) of
                  None \<Rightarrow> Move_invalid
                | Some y \<Rightarrow> if in_bounds x y then Move x y else Move_invalid)))
   \<and> (2 \<le> length s \<and> isalpha (s ! 0) \<longrightarrow>
        parse_move s =
          (case stoi (drop 1 s) of
             None \<Rightarrow> Move_invalid
           | Some v \<Rightarrow>
               if in_bounds (int (of_char (tolower (s ! 0))) - 97) (v - 1)
               then Move (int (of_char (tolower (s ! 0))) - 97) (v - 1) else Move_invalid))
   \<and> (length s < 2 \<or> (\<not> isalpha (s ! 0) \<and> CHR '','' \<notin> set s) \<longrightarrow> parse_move s = Move_invalid)
   \<and> (parse_move s = Move_invalid \<or> in_bounds (move_x (parse_move s)) (move_y (parse_move s)))"
proof -
  have "length s < 2 \<or> (\<not> isalpha (s ! 0) \<and> CHR '','' \<notin> set s) \<longrightarrow> parse_move s = Move_invalid"
    using parse_move_short [of s] parse_move_neither [of s] by fastforce
  then show ?thesis
    using parse_move_digits parse_move_stoi parse_move_letter parse_move_result by blast
qed

theorem parse_move_comma_form_witness:
  "parse_move ''7,7'' = Move 7 7
   \<and> parse_move ''14,0'' = Move 14 0
   \<and> parse_move ''007,3'' = Move 7 3
   \<and> parse_move ''15,3'' = Move_invalid
   \<and> parse_move ''3,x'' = Move_invalid
   \<and> parse_move ''-1,4'' = Move_invalid
   \<and> parse_move ''77'' = Move_invalid
   \<and> parse_move ''H8'' = Move 7 7"
proof -
  have d: "isdigit CHR ''0''" "isdigit CHR ''1''" "isdigit CHR ''3''" "isdigit CHR ''4''"
    "isdigit CHR ''5''" "isdigit CHR ''7''"
    by (simp_all add: isdigit_def)
  have 1: "parse_move ''7,7'' = Move 7 7"
    using parse_move_comma_form [of "''7''" "''7''"] d by (simp add: digits_value_def)
  have 2: "parse_move ''14,0'' = Move 14 0"
    using parse_move_comma_form [of "''14''" "''0''"] d by (simp add: digits_value_def)
  have 3: "parse_move ''007,3'' = Move 7 3"
    using parse_move_comma_form [of "''007''" "''3''"] d by (simp add: digits_value_def)
  have 4: "parse_move ''15,3'' = Move_invalid"
    using parse_move_comma_form [of "''15''" "''3''"] d by (simp add: digits_value_def)
  have 5: "parse_move ''3,x'' = Move_invalid"
    using parse_move_comma_form [of _ _ "''3,x''"] d
    by (simp add: isalpha_def isdigit_def isspace_def stoi_def digits_value_def)
  have 6: "parse_move ''-1,4'' = Move_invalid"
    using parse_move_comma_form [of _ _ "''-1,4''"] d
    by (simp add: isalpha_def isdigit_def isspace_def stoi_def digits_value_def in_bounds_def)
  have 7: "parse_move ''77'' = Move_invalid"
    using parse_move_comma_form [of _ _ "''77''"] by (simp add: isalpha_def)
  have 8: "parse_move ''H8'' = Move 7 7"
    using parse_move_comma_form [of _ _ "''H8''"]
    by (simp add: isalpha_def isdigit_def isspace_def stoi_def digits_value_def in_bounds_def
        tolower_def)
  from 1 2 3 4 5 6 7 8 show ?thesis by blast
qed


end
